theory Spec2Isabelle
  imports Complex_Main
begin

section \<open>Numbers, errors and the output collection\<close>

text \<open>
  The code computes with Python numbers. Times, frame positions, the sampling rate and
  the two limits are modelled as rationals (\<open>rat\<close>). The functions of the sections on
  \<open>utils.py\<close> and on the two backends compute with them exactly. The section on the
  code with rounding has the same functions with every operation on floats rounded, and
  \<open>binary64\<close> there is the rounding of IEEE doubles. The counter is a Python \<open>int\<close>. A
  division whose divisor is zero raises \<open>ZeroDivisionError\<close>.
\<close>

datatype error = ZeroDivisionError

text \<open>Python's \<open>int(x)\<close> on a number: truncation towards zero.\<close>

definition py_int :: "rat \<Rightarrow> int" where
  "py_int x = (if x < 0 then \<lceil>x\<rceil> else \<lfloor>x\<rfloor>)"

text \<open>
  \<open>vad_span\<close>: the object with the attributes \<open>start\<close> and \<open>end\<close> (a pyannote
  \<open>Segment\<close>, or the ad hoc \<open>Timeline\<close> object of the Silero path), in seconds.
\<close>

record vad_span =
  span_start :: rat
  span_end :: rat

text \<open>
  \<open>original_audio_segment[start_ms:end_ms]\<close> is a slice of the decoded audio, made by
  pydub. The model keeps of it the two bounds it was asked for, in milliseconds.
\<close>

record audio_slice =
  slice_start :: rat
  slice_end :: rat

definition slice_ms :: "rat \<Rightarrow> rat \<Rightarrow> audio_slice" where
  "slice_ms start_ms end_ms = \<lparr>slice_start = start_ms, slice_end = end_ms\<rparr>"

text \<open>The duration of a slice in seconds.\<close>

definition slice_duration :: "audio_slice \<Rightarrow> rat" where
  "slice_duration s = (slice_end s - slice_start s) / 1000"

text \<open>
  \<open>split_audio\<close> is a Python \<open>dict\<close> from segment keys to slices. It keeps the order
  of insertion; an assignment to a key it holds replaces the value in place, an
  assignment to any other key appends an entry.
\<close>

type_synonym split_audio = "(string \<times> audio_slice) list"

fun dict_set :: "string \<Rightarrow> audio_slice \<Rightarrow> split_audio \<Rightarrow> split_audio" where
  "dict_set k v [] = [(k, v)]"
| "dict_set k v ((k', v') # d) = (if k' = k then (k, v) # d else (k', v') # dict_set k v d)"

section \<open>Formatting the segment key\<close>

text \<open>
  \<open>f"{full_audio_id}_{counter:04}_{int(start_ms)}_to_{int(end_ms)}"\<close>: the decimal
  digits of an integer, the format \<open>04\<close> (zero padding to a width of four, the sign
  in front of the zeros), and the key.
\<close>

definition digit_char :: "nat \<Rightarrow> char" where
  "digit_char n = ''0123456789'' ! n"

fun str_nat :: "nat \<Rightarrow> string" where
  "str_nat n = (if n < 10 then [digit_char n] else str_nat (n div 10) @ [digit_char (n mod 10)])"

declare str_nat.simps [simp del]

definition str_int :: "int \<Rightarrow> string" where
  "str_int i = (if i < 0 then CHR ''-'' # str_nat (nat (- i)) else str_nat (nat i))"

definition zero_pad :: "nat \<Rightarrow> string \<Rightarrow> string" where
  "zero_pad w s = replicate (w - length s) CHR ''0'' @ s"

definition format_04 :: "int \<Rightarrow> string" where
  "format_04 i =
     (if i < 0 then CHR ''-'' # zero_pad 3 (str_nat (nat (- i))) else zero_pad 4 (str_nat (nat i)))"

definition segment_key :: "string \<Rightarrow> int \<Rightarrow> rat \<Rightarrow> rat \<Rightarrow> string" where
  "segment_key full_audio_id counter start_ms end_ms =
     full_audio_id @ ''_'' @ format_04 counter @ ''_'' @ str_int (py_int start_ms)
       @ ''_to_'' @ str_int (py_int end_ms)"

section \<open>utils.py\<close>

definition sec_to_millis :: "rat \<Rightarrow> rat" where
  "sec_to_millis seconds = seconds * 1000"

definition frame_to_sec :: "rat \<Rightarrow> rat \<Rightarrow> error + rat" where
  "frame_to_sec frame sampling_rate =
     (if sampling_rate = 0 then Inl ZeroDivisionError else Inr (frame / sampling_rate))"

definition sec_to_frame :: "rat \<Rightarrow> rat \<Rightarrow> rat" where
  "sec_to_frame sec sr = sec * sr"

text \<open>
  A call mutates \<open>split_audio\<close> in place and then returns the counter or raises: its
  outcome is the returned counter or the error, together with the dictionary as the
  call left it.
\<close>

type_synonym outcome = "(error + int) \<times> split_audio"

text \<open>
  The \<open>while\<close> loop of \<open>chop_long_segment_duration\<close>. It need not stop (an upper
  limit that is not positive): \<open>None\<close> is the run that never leaves the loop.
\<close>

partial_function (option) halve_loop :: "rat \<Rightarrow> rat \<Rightarrow> rat option" where
  "halve_loop upper_limit chop_length =
     (if chop_length > upper_limit then halve_loop upper_limit (chop_length / 2)
      else Some chop_length)"

declare halve_loop.simps [code]

text \<open>
  The \<open>for\<close> loop of \<open>chop_long_segment_duration\<close> over the values of \<open>chop_index\<close>
  still to come. Both \<open>frame_to_sec\<close> calls of the body are kept.
\<close>

fun chop_loop ::
  "rat \<Rightarrow> vad_span \<Rightarrow> rat \<Rightarrow> rat \<Rightarrow> string \<Rightarrow> nat list \<Rightarrow> int \<Rightarrow> split_audio \<Rightarrow> outcome"
where
  "chop_loop chop_length vs split_start sampling_rate full_audio_id [] counter split_audio =
     (Inr counter, split_audio)"
| "chop_loop chop_length vs split_start sampling_rate full_audio_id (chop_index # rest)
       counter split_audio =
     (case frame_to_sec split_start sampling_rate of
        Inl e \<Rightarrow> (Inl e, split_audio)
      | Inr off1 \<Rightarrow>
          (case frame_to_sec split_start sampling_rate of
             Inl e \<Rightarrow> (Inl e, split_audio)
           | Inr off2 \<Rightarrow>
               (let start_ms = sec_to_millis
                      (span_start vs + off1 + chop_length * of_nat chop_index);
                    end_ms = sec_to_millis
                      (span_start vs + off2 + chop_length * (of_nat chop_index + 1));
                    segment_split_chop = slice_ms start_ms end_ms;
                    segment_key = segment_key full_audio_id counter start_ms end_ms
                in chop_loop chop_length vs split_start sampling_rate full_audio_id rest
                     (counter + 1) (dict_set segment_key segment_split_chop split_audio))))"

definition chop_long_segment_duration ::
  "rat \<Rightarrow> rat \<Rightarrow> vad_span \<Rightarrow> rat \<Rightarrow> rat \<Rightarrow> string \<Rightarrow> split_audio \<Rightarrow> int \<Rightarrow> outcome option"
where
  "chop_long_segment_duration segment_split_duration upper_limit vs split_start
       sampling_rate full_audio_id split_audio counter =
     (case halve_loop upper_limit (segment_split_duration / 2) of
        None \<Rightarrow> None
      | Some chop_length \<Rightarrow>
          Some (if chop_length = 0 then (Inl ZeroDivisionError, split_audio)
                else chop_loop chop_length vs split_start sampling_rate full_audio_id
                       [0..<nat (py_int (segment_split_duration / chop_length))]
                       counter split_audio))"

text \<open>
  The body of the loop of \<open>process_non_mute_segments\<close> for one pair
  \<open>(split_start, split_end)\<close>. The source calls \<open>frame_to_sec\<close> on each of the two
  frames twice, with the same sampling rate; the model calls it once on each.
\<close>

definition non_mute_step ::
  "vad_span \<Rightarrow> rat \<Rightarrow> rat \<Rightarrow> rat \<Rightarrow> string \<Rightarrow> rat \<times> rat \<Rightarrow> int \<Rightarrow> split_audio \<Rightarrow> outcome option"
where
  "non_mute_step vs sampling_rate lower_limit upper_limit full_audio_id split counter split_audio =
     (case frame_to_sec (fst split) sampling_rate of
        Inl e \<Rightarrow> Some (Inl e, split_audio)
      | Inr sec_start \<Rightarrow>
          (case frame_to_sec (snd split) sampling_rate of
             Inl e \<Rightarrow> Some (Inl e, split_audio)
           | Inr sec_end \<Rightarrow>
               (let start_ms = sec_to_millis (span_start vs + sec_start);
                    end_ms = sec_to_millis (span_start vs + sec_end);
                    segment_split = slice_ms start_ms end_ms;
                    segment_split_duration =
                      (span_start vs + sec_end) - (span_start vs + sec_start)
                in if lower_limit \<le> segment_split_duration
                      \<and> segment_split_duration \<le> upper_limit
                   then Some (Inr (counter + 1),
                          dict_set (segment_key full_audio_id counter start_ms end_ms)
                            segment_split split_audio)
                   else if segment_split_duration > upper_limit
                   then chop_long_segment_duration segment_split_duration upper_limit vs
                          (fst split) sampling_rate full_audio_id split_audio counter
                   else Some (Inr counter, split_audio))))"

text \<open>
  A \<open>for\<close> loop whose body updates the counter and \<open>split_audio\<close>: it stops at
  the first item whose body raises or does not return.
\<close>

fun for_each ::
  "('a \<Rightarrow> int \<Rightarrow> split_audio \<Rightarrow> outcome option) \<Rightarrow> 'a list \<Rightarrow> int \<Rightarrow> split_audio
     \<Rightarrow> outcome option"
where
  "for_each body [] counter split_audio = Some (Inr counter, split_audio)"
| "for_each body (x # xs) counter split_audio =
     (case body x counter split_audio of
        None \<Rightarrow> None
      | Some (Inl e, split_audio') \<Rightarrow> Some (Inl e, split_audio')
      | Some (Inr counter', split_audio') \<Rightarrow> for_each body xs counter' split_audio')"

definition process_non_mute_segments ::
  "(rat \<times> rat) list \<Rightarrow> vad_span \<Rightarrow> rat \<Rightarrow> rat \<Rightarrow> rat \<Rightarrow> string \<Rightarrow> int \<Rightarrow> split_audio
     \<Rightarrow> outcome option"
where
  "process_non_mute_segments non_mute_segment_splits vs sampling_rate lower_limit upper_limit
       full_audio_id counter split_audio =
     for_each (non_mute_step vs sampling_rate lower_limit upper_limit full_audio_id)
       non_mute_segment_splits counter split_audio"

section \<open>The two backends\<close>

text \<open>
  The voice activity detection, the decoding of the audio and
  \<open>librosa.effects.split\<close> are not part of the code under study. A run is given the
  spans the detector found, and a function \<open>effects_split lo hi\<close> for
  \<open>librosa.effects.split(original_audio_ndarray[lo:hi], top_db=30)\<close>: the non-silent
  runs of the samples \<open>lo\<close> to \<open>hi\<close>, as pairs of frame numbers counted from \<open>lo\<close>.
\<close>

definition frame_pairs :: "(int \<times> int) list \<Rightarrow> (rat \<times> rat) list" where
  "frame_pairs runs = map (\<lambda>(s, e). (of_int s, of_int e)) runs"

text \<open>\<open>pyannote_audio_split.py\<close>: the body of the loop over the spans, and the run.\<close>

definition pyannote_step ::
  "(int \<Rightarrow> int \<Rightarrow> (int \<times> int) list) \<Rightarrow> rat \<Rightarrow> rat \<Rightarrow> rat \<Rightarrow> string \<Rightarrow> vad_span \<Rightarrow> int
     \<Rightarrow> split_audio \<Rightarrow> outcome option"
where
  "pyannote_step effects_split sampling_rate lower_limit upper_limit full_audio_id vs
       counter split_audio =
     (let start_ms = sec_to_millis (span_start vs);
          end_ms = sec_to_millis (span_end vs);
          vad_segment = slice_ms start_ms end_ms;
          vad_span_length = span_end vs - span_start vs
      in if lower_limit \<le> vad_span_length \<and> vad_span_length \<le> upper_limit
         then Some (Inr (counter + 1),
                dict_set (segment_key full_audio_id counter start_ms end_ms)
                  vad_segment split_audio)
         else if vad_span_length > upper_limit
         then process_non_mute_segments
                (frame_pairs (effects_split
                   (py_int (sec_to_frame (span_start vs) sampling_rate))
                   (py_int (sec_to_frame (span_end vs) sampling_rate))))
                vs sampling_rate lower_limit upper_limit full_audio_id counter split_audio
         else Some (Inr counter, split_audio))"

definition get_split_audio ::
  "vad_span list \<Rightarrow> (int \<Rightarrow> int \<Rightarrow> (int \<times> int) list) \<Rightarrow> rat \<Rightarrow> string \<Rightarrow> rat \<Rightarrow> rat
     \<Rightarrow> (error + split_audio) option"
where
  "get_split_audio spans effects_split sampling_rate full_audio_id lower_limit upper_limit =
     (case for_each
             (pyannote_step effects_split sampling_rate lower_limit upper_limit full_audio_id)
             spans 1 [] of
        None \<Rightarrow> None
      | Some (Inl e, split_audio) \<Rightarrow> Some (Inl e)
      | Some (Inr counter, split_audio) \<Rightarrow> Some (Inr split_audio))"

text \<open>
  \<open>silero_audio_split.py\<close>: a speech timestamp is a pair of frame numbers
  \<open>(ts["start"], ts["end"])\<close> at 16000 frames a second.
\<close>

definition silero_step ::
  "(int \<Rightarrow> int \<Rightarrow> (int \<times> int) list) \<Rightarrow> rat \<Rightarrow> rat \<Rightarrow> string \<Rightarrow> int \<times> int \<Rightarrow> int
     \<Rightarrow> split_audio \<Rightarrow> outcome option"
where
  "silero_step effects_split lower_limit upper_limit full_audio_id ts counter split_audio =
     (let start_frame = fst ts;
          end_frame = snd ts;
          vs = \<lparr>span_start = of_int start_frame / 16000, span_end = of_int end_frame / 16000\<rparr>;
          segment_duration = of_int (end_frame - start_frame) / 16000
      in if lower_limit \<le> segment_duration \<and> segment_duration \<le> upper_limit
         then (let start_ms = sec_to_millis (span_start vs);
                   end_ms = sec_to_millis (span_end vs);
                   segment = slice_ms start_ms end_ms
               in Some (Inr (counter + 1),
                    dict_set (segment_key full_audio_id counter start_ms end_ms)
                      segment split_audio))
         else if segment_duration > upper_limit
         then process_non_mute_segments
                (frame_pairs (effects_split start_frame end_frame))
                vs 16000 lower_limit upper_limit full_audio_id counter split_audio
         else Some (Inr counter, split_audio))"

definition get_split_audio_using_silero ::
  "(int \<times> int) list \<Rightarrow> (int \<Rightarrow> int \<Rightarrow> (int \<times> int) list) \<Rightarrow> string \<Rightarrow> rat \<Rightarrow> rat
     \<Rightarrow> (error + split_audio) option"
where
  "get_split_audio_using_silero speech_timestamps effects_split full_audio_id
       lower_limit upper_limit =
     (case for_each (silero_step effects_split lower_limit upper_limit full_audio_id)
             speech_timestamps 1 [] of
        None \<Rightarrow> None
      | Some (Inl e, split_audio) \<Rightarrow> Some (Inl e)
      | Some (Inr counter, split_audio) \<Rightarrow> Some (Inr split_audio))"

section \<open>Notions used in the statements\<close>

text \<open>
  The \<open>while\<close> loop once more, with the halvings counted alongside: \<open>n\<close> is the
  number of divisions by two made so far.
\<close>

partial_function (option) halve_steps :: "rat \<Rightarrow> rat \<Rightarrow> nat \<Rightarrow> (rat \<times> nat) option" where
  "halve_steps upper_limit chop_length n =
     (if chop_length > upper_limit then halve_steps upper_limit (chop_length / 2) (Suc n)
      else Some (chop_length, n))"

text \<open>The first power of two that brings a duration down to the upper limit.\<close>

definition halvings :: "rat \<Rightarrow> rat \<Rightarrow> nat" where
  "halvings U D = (LEAST k. D / 2 ^ k \<le> U)"

text \<open>
  Reading a sequence number back from a key: the digits of a number, the number that
  \<open>format_04\<close> printed, and the field of a key that follows the audio identifier.
\<close>

definition digit_val :: "char \<Rightarrow> nat" where
  "digit_val c = of_char c - 48"

definition nat_of_digits :: "string \<Rightarrow> nat" where
  "nat_of_digits s = foldl (\<lambda>a c. 10 * a + digit_val c) 0 s"

definition parse_seq :: "string \<Rightarrow> int" where
  "parse_seq s = (case s of [] \<Rightarrow> 0
                  | c # r \<Rightarrow> if c = CHR ''-'' then - int (nat_of_digits r) else int (nat_of_digits s))"

definition key_seq :: "string \<Rightarrow> string \<Rightarrow> int" where
  "key_seq full_audio_id k =
     parse_seq (takeWhile (\<lambda>c. c \<noteq> CHR ''_'') (drop (length full_audio_id + 1) k))"

text \<open>
  Every key of the dictionary carries a sequence number below the counter: no key that
  is built from the counter or from a later value of it is in the dictionary yet.
\<close>

definition keys_below :: "string \<Rightarrow> int \<Rightarrow> split_audio \<Rightarrow> bool" where
  "keys_below full_audio_id counter d = (\<forall>k \<in> set (map fst d). key_seq full_audio_id k < counter)"

text \<open>
  The entries were written one after the other with the counter starting at
  \<open>counter\<close>: each key is the segment key of its position and of the bounds of its
  slice.
\<close>

fun well_keyed :: "string \<Rightarrow> int \<Rightarrow> split_audio \<Rightarrow> bool" where
  "well_keyed full_audio_id counter [] = True"
| "well_keyed full_audio_id counter ((k, v) # es) =
     (k = segment_key full_audio_id counter (slice_start v) (slice_end v)
      \<and> well_keyed full_audio_id (counter + 1) es)"

text \<open>Assigning a list of entries to the dictionary, one after the other.\<close>

definition assign_all :: "split_audio \<Rightarrow> split_audio \<Rightarrow> split_audio" where
  "assign_all es d = fold (\<lambda>e. dict_set (fst e) (snd e)) es d"

text \<open>
  The chop of index \<open>i\<close>: its key and its slice, for the chop length \<open>cl\<close>, the start
  \<open>base\<close> of the sub-span in seconds and the counter \<open>c\<close> at the first chop.
\<close>

definition chop_entry :: "rat \<Rightarrow> rat \<Rightarrow> string \<Rightarrow> int \<Rightarrow> nat \<Rightarrow> string \<times> audio_slice" where
  "chop_entry cl base full_audio_id c i =
     (segment_key full_audio_id (c + int i)
        (sec_to_millis (base + cl * of_nat i)) (sec_to_millis (base + cl * (of_nat i + 1))),
      slice_ms (sec_to_millis (base + cl * of_nat i)) (sec_to_millis (base + cl * (of_nat i + 1))))"

text \<open>
  The outcome of a call that returns after writing the entries \<open>es\<close>, one for each
  value of the counter from \<open>c\<close> on, where \<open>P\<close> holds of the entries.
\<close>

definition emits ::
  "string \<Rightarrow> (split_audio \<Rightarrow> bool) \<Rightarrow> int \<Rightarrow> split_audio \<Rightarrow> outcome option \<Rightarrow> bool" where
  "emits full_audio_id P c d out =
     (\<exists>es. out = Some (Inr (c + int (length es)), assign_all es d)
         \<and> well_keyed full_audio_id c es \<and> P es)"

text \<open>The sum of the durations of the slices of a list of entries, in seconds.\<close>

definition total_duration :: "split_audio \<Rightarrow> rat" where
  "total_duration es = sum_list (map (\<lambda>e. slice_duration (snd e)) es)"

text \<open>
  What holds of the duration of every segment: it does not exceed the upper limit, and
  it reaches the lower limit or exceeds half the upper limit.
\<close>

definition band_or_chop :: "rat \<Rightarrow> rat \<Rightarrow> audio_slice \<Rightarrow> bool" where
  "band_or_chop lower_limit upper_limit v =
     (slice_duration v \<le> upper_limit
      \<and> (lower_limit \<le> slice_duration v \<or> upper_limit / 2 < slice_duration v))"

text \<open>An energy analysis that finds the whole slice non-silent: one run, all of it.\<close>

definition all_loud :: "int \<Rightarrow> int \<Rightarrow> (int \<times> int) list" where
  "all_loud lo hi = [(0, hi - lo)]"


text \<open>
  Whatever the call does: if it returns or raises, it has written entries \<open>es\<close>, one
  for each value of the counter from \<open>c\<close> on, of which \<open>P\<close> holds, and if it returns,
  it returns the counter it has reached.
\<close>

definition writes ::
  "string \<Rightarrow> (split_audio \<Rightarrow> bool) \<Rightarrow> int \<Rightarrow> split_audio \<Rightarrow> outcome option \<Rightarrow> bool" where
  "writes full_audio_id P c d out =
     (case out of
        None \<Rightarrow> True
      | Some (r, d') \<Rightarrow>
          (\<exists>es. d' = assign_all es d \<and> well_keyed full_audio_id c es \<and> P es
              \<and> (case r of Inl e \<Rightarrow> True | Inr c' \<Rightarrow> c' = c + int (length es))))"



section \<open>Python floats\<close>

text \<open>
  A Python \<open>float\<close> is an IEEE 754 binary64 number, and an arithmetic operation on
  floats returns the exact result rounded to the nearest such number, a tie going to
  the one whose last bit is zero. \<open>binary64 x\<close> is that rounding of the rational
  \<open>x\<close>: a significand of 53 bits at the binary exponent of \<open>x\<close>. The range of the
  exponent is not limited: overflow and subnormal numbers are left out.
\<close>

definition pow2 :: "int \<Rightarrow> rat" where
  "pow2 n = (if 0 \<le> n then 2 ^ nat n else 1 / 2 ^ nat (- n))"

function log2_up :: "rat \<Rightarrow> nat" where
  "log2_up x = (if 2 \<le> x then Suc (log2_up (x / 2)) else 0)"
  by pat_completeness auto
termination
proof (relation "measure (\<lambda>x. nat \<lfloor>x\<rfloor>)")
  show "wf (measure (\<lambda>x::rat. nat \<lfloor>x\<rfloor>))" by simp
next
  fix x :: rat
  assume x: "2 \<le> x"
  then have "x / 2 \<le> x - 1" by simp
  then have "\<lfloor>x / 2\<rfloor> \<le> \<lfloor>x - 1\<rfloor>" by (rule floor_mono)
  then have "\<lfloor>x / 2\<rfloor> < \<lfloor>x\<rfloor>" by simp
  moreover have "0 < \<lfloor>x\<rfloor>" using x by simp
  ultimately show "(x / 2, x) \<in> measure (\<lambda>x. nat \<lfloor>x\<rfloor>)" by simp
qed

function log2_down :: "rat \<Rightarrow> nat" where
  "log2_down x = (if 0 < x \<and> x < 1 then Suc (log2_down (2 * x)) else 0)"
  by pat_completeness auto
termination
proof (relation "measure (\<lambda>x. nat \<lfloor>1 / x\<rfloor>)")
  show "wf (measure (\<lambda>x::rat. nat \<lfloor>1 / x\<rfloor>))" by simp
next
  fix x :: rat
  assume x: "0 < x \<and> x < 1"
  then have y: "1 < 1 / x" by simp
  have "1 / (2 * x) = (1 / x) / 2" by simp
  also have "\<dots> \<le> 1 / x - 1 / 2" using y by simp
  finally have le: "1 / (2 * x) \<le> 1 / x - 1 / 2" .
  have "\<lfloor>1 / (2 * x)\<rfloor> < \<lfloor>1 / x\<rfloor>"
  proof (cases "2 \<le> 1 / x")
    case True
    then have "(1 / x) / 2 \<le> 1 / x - 1" by simp
    then have "1 / (2 * x) \<le> 1 / x - 1" by simp
    then have "\<lfloor>1 / (2 * x)\<rfloor> \<le> \<lfloor>1 / x - 1\<rfloor>" by (rule floor_mono)
    moreover have "\<lfloor>1 / x - 1\<rfloor> = \<lfloor>1 / x\<rfloor> - 1" by (rule floor_diff_one)
    ultimately show ?thesis by linarith
  next
    case False
    then have "1 / (2 * x) < 1" using x by (simp add: field_simps)
    then have "\<lfloor>1 / (2 * x)\<rfloor> < 1" by (simp only: floor_less_one)
    moreover have "1 \<le> \<lfloor>1 / x\<rfloor>" using y by (simp add: le_floor_iff)
    ultimately show ?thesis by linarith
  qed
  moreover have "0 < \<lfloor>1 / x\<rfloor>" using y by (simp add: le_floor_iff)
  ultimately show "(2 * x, x) \<in> measure (\<lambda>x. nat \<lfloor>1 / x\<rfloor>)"
    unfolding in_measure by linarith
qed

declare log2_up.simps [simp del] log2_down.simps [simp del]

text \<open>The binary exponent of a positive number: \<open>2 ^ e \<le> x < 2 ^ (e + 1)\<close>.\<close>

definition expo :: "rat \<Rightarrow> int" where
  "expo x = (if 1 \<le> x then int (log2_up x) else - int (log2_down x))"

definition round_half_even :: "rat \<Rightarrow> int" where
  "round_half_even q =
     (let f = \<lfloor>q\<rfloor>; r = q - of_int f
      in if r < 1 / 2 then f else if 1 / 2 < r then f + 1 else if even f then f else f + 1)"

definition binary64 :: "rat \<Rightarrow> rat" where
  "binary64 x =
     (if x = 0 then 0
      else (let ulp = pow2 (expo \<bar>x\<bar> - 52)
            in of_int (round_half_even (x / ulp)) * ulp))"


section \<open>The code with rounding\<close>

text \<open>
  The functions of \<open>utils.py\<close> and the loop bodies of the two backends once more, with
  the arithmetic as a parameter: \<open>rnd\<close> rounds the exact result of each operation on
  floats. With \<open>binary64\<close> for \<open>rnd\<close> this is what Python computes; with the identity
  it is the exact arithmetic of the functions above. An integer operand (a frame number,
  the sampling rate, \<open>chop_index\<close>) is converted to a float first, which changes no
  integer below \<open>2\<^sup>5\<^sup>3\<close>. Comparisons, \<open>int(...)\<close> and the arithmetic of the counter and
  of \<open>chop_index\<close> are exact. As in the exact model, the body of the loop of
  \<open>process_non_mute_segments\<close> converts each of the two frames to seconds once.
\<close>

definition sec_to_millis_fl :: "(rat \<Rightarrow> rat) \<Rightarrow> rat \<Rightarrow> rat" where
  "sec_to_millis_fl rnd seconds = rnd (seconds * 1000)"

definition frame_to_sec_fl :: "(rat \<Rightarrow> rat) \<Rightarrow> rat \<Rightarrow> rat \<Rightarrow> error + rat" where
  "frame_to_sec_fl rnd frame sampling_rate =
     (if sampling_rate = 0 then Inl ZeroDivisionError else Inr (rnd (frame / sampling_rate)))"

definition sec_to_frame_fl :: "(rat \<Rightarrow> rat) \<Rightarrow> rat \<Rightarrow> rat \<Rightarrow> rat" where
  "sec_to_frame_fl rnd sec sr = rnd (sec * sr)"

partial_function (option) halve_loop_fl :: "(rat \<Rightarrow> rat) \<Rightarrow> rat \<Rightarrow> rat \<Rightarrow> rat option" where
  "halve_loop_fl rnd upper_limit chop_length =
     (if chop_length > upper_limit then halve_loop_fl rnd upper_limit (rnd (chop_length / 2))
      else Some chop_length)"

declare halve_loop_fl.simps [code]

fun chop_loop_fl ::
  "(rat \<Rightarrow> rat) \<Rightarrow> rat \<Rightarrow> vad_span \<Rightarrow> rat \<Rightarrow> rat \<Rightarrow> string \<Rightarrow> nat list \<Rightarrow> int \<Rightarrow> split_audio
     \<Rightarrow> outcome"
where
  "chop_loop_fl rnd chop_length vs split_start sampling_rate full_audio_id [] counter split_audio =
     (Inr counter, split_audio)"
| "chop_loop_fl rnd chop_length vs split_start sampling_rate full_audio_id (chop_index # rest)
       counter split_audio =
     (case frame_to_sec_fl rnd split_start sampling_rate of
        Inl e \<Rightarrow> (Inl e, split_audio)
      | Inr off1 \<Rightarrow>
          (case frame_to_sec_fl rnd split_start sampling_rate of
             Inl e \<Rightarrow> (Inl e, split_audio)
           | Inr off2 \<Rightarrow>
               (let start_ms = sec_to_millis_fl rnd
                      (rnd (rnd (span_start vs + off1) + rnd (chop_length * of_nat chop_index)));
                    end_ms = sec_to_millis_fl rnd
                      (rnd (rnd (span_start vs + off2)
                         + rnd (chop_length * (of_nat chop_index + 1))));
                    segment_split_chop = slice_ms start_ms end_ms;
                    segment_key = segment_key full_audio_id counter start_ms end_ms
                in chop_loop_fl rnd chop_length vs split_start sampling_rate full_audio_id rest
                     (counter + 1) (dict_set segment_key segment_split_chop split_audio))))"

definition chop_long_segment_duration_fl ::
  "(rat \<Rightarrow> rat) \<Rightarrow> rat \<Rightarrow> rat \<Rightarrow> vad_span \<Rightarrow> rat \<Rightarrow> rat \<Rightarrow> string \<Rightarrow> split_audio \<Rightarrow> int
     \<Rightarrow> outcome option"
where
  "chop_long_segment_duration_fl rnd segment_split_duration upper_limit vs split_start
       sampling_rate full_audio_id split_audio counter =
     (case halve_loop_fl rnd upper_limit (rnd (segment_split_duration / 2)) of
        None \<Rightarrow> None
      | Some chop_length \<Rightarrow>
          Some (if chop_length = 0 then (Inl ZeroDivisionError, split_audio)
                else chop_loop_fl rnd chop_length vs split_start sampling_rate full_audio_id
                       [0..<nat (py_int (rnd (segment_split_duration / chop_length)))]
                       counter split_audio))"

definition non_mute_step_fl ::
  "(rat \<Rightarrow> rat) \<Rightarrow> vad_span \<Rightarrow> rat \<Rightarrow> rat \<Rightarrow> rat \<Rightarrow> string \<Rightarrow> rat \<times> rat \<Rightarrow> int \<Rightarrow> split_audio
     \<Rightarrow> outcome option"
where
  "non_mute_step_fl rnd vs sampling_rate lower_limit upper_limit full_audio_id split counter
       split_audio =
     (case frame_to_sec_fl rnd (fst split) sampling_rate of
        Inl e \<Rightarrow> Some (Inl e, split_audio)
      | Inr sec_start \<Rightarrow>
          (case frame_to_sec_fl rnd (snd split) sampling_rate of
             Inl e \<Rightarrow> Some (Inl e, split_audio)
           | Inr sec_end \<Rightarrow>
               (let start_ms = sec_to_millis_fl rnd (rnd (span_start vs + sec_start));
                    end_ms = sec_to_millis_fl rnd (rnd (span_start vs + sec_end));
                    segment_split = slice_ms start_ms end_ms;
                    segment_split_duration =
                      rnd (rnd (span_start vs + sec_end) - rnd (span_start vs + sec_start))
                in if lower_limit \<le> segment_split_duration
                      \<and> segment_split_duration \<le> upper_limit
                   then Some (Inr (counter + 1),
                          dict_set (segment_key full_audio_id counter start_ms end_ms)
                            segment_split split_audio)
                   else if segment_split_duration > upper_limit
                   then chop_long_segment_duration_fl rnd segment_split_duration upper_limit vs
                          (fst split) sampling_rate full_audio_id split_audio counter
                   else Some (Inr counter, split_audio))))"

definition process_non_mute_segments_fl ::
  "(rat \<Rightarrow> rat) \<Rightarrow> (rat \<times> rat) list \<Rightarrow> vad_span \<Rightarrow> rat \<Rightarrow> rat \<Rightarrow> rat \<Rightarrow> string \<Rightarrow> int
     \<Rightarrow> split_audio \<Rightarrow> outcome option"
where
  "process_non_mute_segments_fl rnd non_mute_segment_splits vs sampling_rate lower_limit
       upper_limit full_audio_id counter split_audio =
     for_each (non_mute_step_fl rnd vs sampling_rate lower_limit upper_limit full_audio_id)
       non_mute_segment_splits counter split_audio"

definition pyannote_step_fl ::
  "(rat \<Rightarrow> rat) \<Rightarrow> (int \<Rightarrow> int \<Rightarrow> (int \<times> int) list) \<Rightarrow> rat \<Rightarrow> rat \<Rightarrow> rat \<Rightarrow> string \<Rightarrow> vad_span
     \<Rightarrow> int \<Rightarrow> split_audio \<Rightarrow> outcome option"
where
  "pyannote_step_fl rnd effects_split sampling_rate lower_limit upper_limit full_audio_id vs
       counter split_audio =
     (let start_ms = sec_to_millis_fl rnd (span_start vs);
          end_ms = sec_to_millis_fl rnd (span_end vs);
          vad_segment = slice_ms start_ms end_ms;
          vad_span_length = rnd (span_end vs - span_start vs)
      in if lower_limit \<le> vad_span_length \<and> vad_span_length \<le> upper_limit
         then Some (Inr (counter + 1),
                dict_set (segment_key full_audio_id counter start_ms end_ms)
                  vad_segment split_audio)
         else if vad_span_length > upper_limit
         then process_non_mute_segments_fl rnd
                (frame_pairs (effects_split
                   (py_int (sec_to_frame_fl rnd (span_start vs) sampling_rate))
                   (py_int (sec_to_frame_fl rnd (span_end vs) sampling_rate))))
                vs sampling_rate lower_limit upper_limit full_audio_id counter split_audio
         else Some (Inr counter, split_audio))"

definition silero_step_fl ::
  "(rat \<Rightarrow> rat) \<Rightarrow> (int \<Rightarrow> int \<Rightarrow> (int \<times> int) list) \<Rightarrow> rat \<Rightarrow> rat \<Rightarrow> string \<Rightarrow> int \<times> int \<Rightarrow> int
     \<Rightarrow> split_audio \<Rightarrow> outcome option"
where
  "silero_step_fl rnd effects_split lower_limit upper_limit full_audio_id ts counter split_audio =
     (let start_frame = fst ts;
          end_frame = snd ts;
          vs = \<lparr>span_start = rnd (of_int start_frame / 16000),
                span_end = rnd (of_int end_frame / 16000)\<rparr>;
          segment_duration = rnd (of_int (end_frame - start_frame) / 16000)
      in if lower_limit \<le> segment_duration \<and> segment_duration \<le> upper_limit
         then (let start_ms = sec_to_millis_fl rnd (span_start vs);
                   end_ms = sec_to_millis_fl rnd (span_end vs);
                   segment = slice_ms start_ms end_ms
               in Some (Inr (counter + 1),
                    dict_set (segment_key full_audio_id counter start_ms end_ms)
                      segment split_audio))
         else if segment_duration > upper_limit
         then process_non_mute_segments_fl rnd
                (frame_pairs (effects_split start_frame end_frame))
                vs 16000 lower_limit upper_limit full_audio_id counter split_audio
         else Some (Inr counter, split_audio))"


text \<open>
  The entry for a whole span that runs from \<open>a\<close> to \<open>b\<close> seconds, written at the
  counter \<open>c\<close>: the key and the slice between the two bounds in milliseconds, as
  \<open>sec_to_millis\<close> computes them.
\<close>

definition span_entry_fl ::
  "(rat \<Rightarrow> rat) \<Rightarrow> string \<Rightarrow> int \<Rightarrow> rat \<Rightarrow> rat \<Rightarrow> string \<times> audio_slice" where
  "span_entry_fl rnd full_audio_id c a b =
     (segment_key full_audio_id c (sec_to_millis_fl rnd a) (sec_to_millis_fl rnd b),
      slice_ms (sec_to_millis_fl rnd a) (sec_to_millis_fl rnd b))"

section \<open>The unit converters\<close>

lemma frame_to_sec_Inr [simp]:
  "sampling_rate \<noteq> 0 \<Longrightarrow> frame_to_sec frame sampling_rate = Inr (frame / sampling_rate)"
  by (simp add: frame_to_sec_def)

lemma frame_to_sec_zero [simp]: "frame_to_sec frame 0 = Inl ZeroDivisionError"
  by (simp add: frame_to_sec_def)

section \<open>The halving loop\<close>

lemma halve_loop_iter:
  "c / 2 ^ k \<le> U \<Longrightarrow> (\<forall>j<k. U < c / 2 ^ j) \<Longrightarrow> halve_loop U c = Some (c / 2 ^ k)"
proof (induction k arbitrary: c)
  case 0
  then show ?case by (subst halve_loop.simps) simp
next
  case (Suc k)
  from Suc.prems(2) have gt: "U < c" by force
  have "halve_loop U (c / 2) = Some (c / 2 / 2 ^ k)"
  proof (rule Suc.IH)
    show "c / 2 / 2 ^ k \<le> U" using Suc.prems(1) by simp
    show "\<forall>j<k. U < c / 2 / 2 ^ j"
    proof (intro allI impI)
      fix j assume "j < k"
      then have "U < c / 2 ^ Suc j" using Suc.prems(2) by (meson Suc_less_eq)
      then show "U < c / 2 / 2 ^ j" by simp
    qed
  qed
  then show ?case using gt by (subst halve_loop.simps) simp
qed

lemma halve_steps_iter:
  "c / 2 ^ k \<le> U \<Longrightarrow> (\<forall>j<k. U < c / 2 ^ j) \<Longrightarrow> halve_steps U c n = Some (c / 2 ^ k, n + k)"
proof (induction k arbitrary: c n)
  case 0
  then show ?case by (subst halve_steps.simps) simp
next
  case (Suc k)
  from Suc.prems(2) have gt: "U < c" by force
  have "halve_steps U (c / 2) (Suc n) = Some (c / 2 / 2 ^ k, Suc n + k)"
  proof (rule Suc.IH)
    show "c / 2 / 2 ^ k \<le> U" using Suc.prems(1) by simp
    show "\<forall>j<k. U < c / 2 / 2 ^ j"
    proof (intro allI impI)
      fix j assume "j < k"
      then have "U < c / 2 ^ Suc j" using Suc.prems(2) by (meson Suc_less_eq)
      then show "U < c / 2 / 2 ^ j" by simp
    qed
  qed
  then show ?case using gt by (subst halve_steps.simps) simp
qed

lemma halving_reaches:
  fixes U D :: rat
  assumes "0 < U"
  shows "\<exists>k. D / 2 ^ k \<le> U"
proof -
  obtain n :: nat where n: "D / U < of_nat n" using reals_Archimedean2 by blast
  have "(of_nat n :: rat) < 2 ^ n" by (rule of_nat_less_two_power)
  with n have "D / U < 2 ^ n" by linarith
  then have "D < 2 ^ n * U" using assms by (simp add: pos_divide_less_eq)
  then have "D / 2 ^ n \<le> U" by (simp add: pos_divide_le_eq mult.commute)
  then show ?thesis ..
qed

lemma halvings_props:
  assumes "0 < U" "U < D"
  shows "D / 2 ^ halvings U D \<le> U" "\<forall>j<halvings U D. U < D / 2 ^ j" "1 \<le> halvings U D"
    "int (halvings U D) \<le> \<lceil>log 2 (real_of_rat (D / U))\<rceil>"
proof -
  let ?k = "halvings U D"
  show le: "D / 2 ^ ?k \<le> U"
    unfolding halvings_def using halving_reaches [OF assms(1)] by (rule LeastI_ex)
  show lt: "\<forall>j<?k. U < D / 2 ^ j"
    unfolding halvings_def using not_less_Least by (metis not_le)
  show one: "1 \<le> ?k"
  proof (rule ccontr)
    assume "\<not> 1 \<le> ?k"
    then have "?k = 0" by simp
    with le assms(2) show False by simp
  qed
  then obtain m where m: "?k = Suc m" by (cases ?k) auto
  with lt have "U < D / 2 ^ m" by simp
  then have "2 ^ m < D / U" using assms(1) by (simp add: pos_less_divide_eq pos_divide_less_eq mult.commute)
  then have "real_of_rat (2 ^ m) < real_of_rat (D / U)" by (simp only: of_rat_less)
  then have p: "(2::real) ^ m < real_of_rat (D / U)" by (simp add: of_rat_power)
  have "real m < log 2 (real_of_rat (D / U))"
    using p less_log_of_power [of 2 m "real_of_rat (D / U)"] by simp
  then have "int m < \<lceil>log 2 (real_of_rat (D / U))\<rceil>" by linarith
  with m show "int ?k \<le> \<lceil>log 2 (real_of_rat (D / U))\<rceil>" by simp
qed

text \<open>
  C4: for an upper limit above zero and a duration \<open>D\<close> above the limit, the loop
  started at \<open>D / 2\<close> returns. With the division before the loop counted as the first
  halving, it has made \<open>k\<close> halvings, at most \<open>\<lceil>log\<^sub>2 (D / upper_limit)\<rceil>\<close>, and the
  chop length \<open>D / 2 ^ k\<close> it returns is at most the upper limit.
\<close>

theorem halving_terminates:
  assumes "0 < upper_limit" "upper_limit < D"
  shows "\<exists>k chop_length.
           halve_steps upper_limit (D / 2) 1 = Some (chop_length, k)
         \<and> halve_loop upper_limit (D / 2) = Some chop_length
         \<and> chop_length = D / 2 ^ k \<and> 1 \<le> k
         \<and> int k \<le> \<lceil>log 2 (real_of_rat (D / upper_limit))\<rceil>
         \<and> chop_length \<le> upper_limit"
proof -
  let ?k = "halvings upper_limit D"
  note h = halvings_props [OF assms]
  from h(3) obtain m where m: "?k = Suc m" by (cases ?k) auto
  have le: "D / 2 / 2 ^ m \<le> upper_limit" using h(1) m by simp
  have gt: "\<forall>j<m. upper_limit < D / 2 / 2 ^ j"
  proof (intro allI impI)
    fix j assume "j < m"
    then have "Suc j < ?k" using m by simp
    with h(2) have "upper_limit < D / 2 ^ Suc j" by blast
    then show "upper_limit < D / 2 / 2 ^ j" by simp
  qed
  have a: "halve_steps upper_limit (D / 2) 1 = Some (D / 2 ^ ?k, ?k)"
    using halve_steps_iter [OF le gt, of 1] m by simp
  have b: "halve_loop upper_limit (D / 2) = Some (D / 2 ^ ?k)"
    using halve_loop_iter [OF le gt] m by simp
  show ?thesis using a b h(1) h(3) h(4) by blast
qed

theorem halving_terminates_witness:
  "(0::rat) < 8 \<and> (8::rat) < 40
   \<and> (\<exists>k chop_length.
           halve_steps 8 (40 / 2) 1 = Some (chop_length, k)
         \<and> halve_loop 8 (40 / 2) = Some chop_length
         \<and> chop_length = 40 / 2 ^ k \<and> 1 \<le> k
         \<and> int k \<le> \<lceil>log 2 (real_of_rat (40 / 8))\<rceil>
         \<and> chop_length \<le> 8)"
proof -
  have a: "(0::rat) < 8" and b: "(8::rat) < 40" by simp_all
  from halving_terminates [OF a b] a b show ?thesis by blast
qed

section \<open>Segment keys\<close>

lemma digit_cases: "n < 10 \<Longrightarrow> n \<in> {0, 1, 2, 3, 4, 5, 6, 7, 8, 9::nat}"
  by auto

lemma digit_val_digit_char: "n < 10 \<Longrightarrow> digit_val (digit_char n) = n"
  using digit_cases [of n] by (auto simp: digit_val_def digit_char_def)

lemma digit_char_in: "n < 10 \<Longrightarrow> digit_char n \<in> set ''0123456789''"
  unfolding digit_char_def by (rule nth_mem) simp

lemma str_nat_chars: "set (str_nat n) \<subseteq> set ''0123456789''"
proof (induction n rule: str_nat.induct)
  case (1 n)
  show ?case
  proof (cases "n < 10")
    case True
    then show ?thesis using digit_char_in [of n] by (subst str_nat.simps) simp
  next
    case False
    have "n mod 10 < 10" by simp
    from digit_char_in [OF this] "1" [OF False] False show ?thesis
      by (subst str_nat.simps) simp
  qed
qed

lemma nat_of_digits_snoc: "nat_of_digits (s @ [c]) = 10 * nat_of_digits s + digit_val c"
  by (simp add: nat_of_digits_def)

lemma nat_of_digits_str_nat: "nat_of_digits (str_nat n) = n"
proof (induction n rule: str_nat.induct)
  case (1 n)
  show ?case
  proof (cases "n < 10")
    case True
    then show ?thesis
      by (subst str_nat.simps) (simp add: nat_of_digits_def digit_val_digit_char)
  next
    case False
    then show ?thesis using "1" [OF False]
      by (subst str_nat.simps) (simp add: nat_of_digits_snoc digit_val_digit_char)
  qed
qed

lemma nat_of_digits_zeros: "nat_of_digits (replicate m CHR ''0'' @ s) = nat_of_digits s"
  by (induction m) (simp_all add: nat_of_digits_def digit_val_def)

lemma nat_of_digits_zero_pad: "nat_of_digits (zero_pad w (str_nat n)) = n"
  by (simp add: zero_pad_def nat_of_digits_zeros nat_of_digits_str_nat)

lemma zero_pad_chars: "set (zero_pad w (str_nat n)) \<subseteq> set ''0123456789''"
  using str_nat_chars [of n] by (auto simp: zero_pad_def)

lemma str_nat_nonempty: "str_nat n \<noteq> []"
  by (subst str_nat.simps) simp

lemma zero_pad_nonempty: "zero_pad w (str_nat n) \<noteq> []"
  by (simp add: zero_pad_def str_nat_nonempty)

lemma parse_seq_format_04: "parse_seq (format_04 i) = i"
proof (cases "i < 0")
  case True
  then show ?thesis by (simp add: format_04_def parse_seq_def nat_of_digits_zero_pad)
next
  case False
  obtain c r where cr: "zero_pad 4 (str_nat (nat i)) = c # r"
    using zero_pad_nonempty [of 4 "nat i"] by (cases "zero_pad 4 (str_nat (nat i))") auto
  have "c \<in> set ''0123456789''" using zero_pad_chars [of 4 "nat i"] cr by auto
  then have "c \<noteq> CHR ''-''" by auto
  moreover have "nat_of_digits (c # r) = nat i" using nat_of_digits_zero_pad [of 4 "nat i"] cr by simp
  ultimately show ?thesis using False cr by (simp add: format_04_def parse_seq_def)
qed

lemma format_04_chars: "CHR ''_'' \<notin> set (format_04 i)"
  using zero_pad_chars [of 4 "nat i"] zero_pad_chars [of 3 "nat (- i)"]
  by (auto simp: format_04_def)

lemma key_seq_segment_key [simp]: "key_seq full_audio_id (segment_key full_audio_id c s e) = c"
proof -
  have "takeWhile (\<lambda>c. c \<noteq> CHR ''_'') (format_04 c @ CHR ''_'' # rest) = format_04 c" for rest
  proof -
    have "\<And>x. x \<in> set (format_04 c) \<Longrightarrow> x \<noteq> CHR ''_''"
      using format_04_chars [of c] by blast
    then show ?thesis by (simp add: takeWhile_append2)
  qed
  then show ?thesis by (simp add: key_seq_def segment_key_def parse_seq_format_04)
qed

lemma dict_set_fresh: "k \<notin> fst ` set d \<Longrightarrow> dict_set k v d = d @ [(k, v)]"
  by (induction d) auto

lemma keys_below_fresh:
  "keys_below full_audio_id c d \<Longrightarrow> segment_key full_audio_id c s e \<notin> fst ` set d"
  unfolding keys_below_def by (metis key_seq_segment_key less_irrefl set_map)

lemma dict_set_keys_below:
  "keys_below full_audio_id c d \<Longrightarrow>
     dict_set (segment_key full_audio_id c s e) v d = d @ [(segment_key full_audio_id c s e, v)]"
  by (rule dict_set_fresh) (rule keys_below_fresh)

lemma keys_below_mono: "keys_below full_audio_id c d \<Longrightarrow> c \<le> c' \<Longrightarrow> keys_below full_audio_id c' d"
  unfolding keys_below_def by fastforce

lemma well_keyed_append:
  "well_keyed full_audio_id c (es @ fs) \<longleftrightarrow>
     well_keyed full_audio_id c es \<and> well_keyed full_audio_id (c + int (length es)) fs"
  by (induction es arbitrary: c) (auto simp: add.assoc)

lemma well_keyed_keys:
  "well_keyed full_audio_id c es \<Longrightarrow>
     map (\<lambda>e. key_seq full_audio_id (fst e)) es = map (\<lambda>i. c + int i) [0..<length es]"
proof (induction es arbitrary: c)
  case Nil
  then show ?case by simp
next
  case (Cons e es)
  obtain k v where e: "e = (k, v)" by (cases e)
  from Cons.prems e have k: "k = segment_key full_audio_id c (slice_start v) (slice_end v)"
    and rest: "well_keyed full_audio_id (c + 1) es" by simp_all
  have "map (\<lambda>i. c + int i) [0..<Suc (length es)] = c # map (\<lambda>i. c + 1 + int i) [0..<length es]"
    by (simp add: upt_conv_Cons map_Suc_upt [symmetric] del: upt_Suc)
  then show ?case using Cons.IH [OF rest] e k by simp
qed

lemma keys_below_append:
  assumes "keys_below full_audio_id c d" "well_keyed full_audio_id c es"
  shows "keys_below full_audio_id (c + int (length es)) (d @ es)"
proof -
  have "\<forall>x \<in> set (map (\<lambda>e. key_seq full_audio_id (fst e)) es). x < c + int (length es)"
    unfolding well_keyed_keys [OF assms(2)] by auto
  then show ?thesis using keys_below_mono [OF assms(1), of "c + int (length es)"]
    by (auto simp: keys_below_def)
qed

section \<open>The chopper\<close>

lemma assign_all_Nil [simp]: "assign_all [] d = d"
  by (simp add: assign_all_def)

lemma assign_all_Cons [simp]: "assign_all (e # es) d = assign_all es (dict_set (fst e) (snd e) d)"
  by (simp add: assign_all_def)

lemma assign_all_append: "assign_all (es @ fs) d = assign_all fs (assign_all es d)"
  by (simp add: assign_all_def)

lemma keys_below_snoc:
  "keys_below full_audio_id c d \<Longrightarrow>
     keys_below full_audio_id (c + 1) (d @ [(segment_key full_audio_id c s e, v)])"
  using keys_below_mono [of full_audio_id c d "c + 1"] by (auto simp: keys_below_def)

lemma assign_all_fresh:
  "keys_below full_audio_id c d \<Longrightarrow> well_keyed full_audio_id c es \<Longrightarrow> assign_all es d = d @ es"
proof (induction es arbitrary: c d)
  case Nil
  then show ?case by simp
next
  case (Cons e es)
  obtain k v where e: "e = (k, v)" by (cases e)
  from Cons.prems(2) e have k: "k = segment_key full_audio_id c (slice_start v) (slice_end v)"
    and rest: "well_keyed full_audio_id (c + 1) es" by simp_all
  have "dict_set k v d = d @ [(k, v)]" unfolding k by (rule dict_set_keys_below) (rule Cons.prems(1))
  moreover have "keys_below full_audio_id (c + 1) (d @ [(k, v)])"
    unfolding k by (rule keys_below_snoc) (rule Cons.prems(1))
  ultimately show ?case using Cons.IH [OF _ rest] e by simp
qed

lemma dict_set_keys: "fst ` set (dict_set k v d) = insert k (fst ` set d)"
proof (induction d)
  case Nil
  show ?case by simp
next
  case (Cons p d)
  obtain k' v' where p: "p = (k', v')" by (cases p)
  show ?case unfolding p by (cases "k' = k") (simp_all add: Cons.IH insert_commute)
qed

lemma assign_all_keys: "fst ` set (assign_all es d) = fst ` set es \<union> fst ` set d"
  by (induction es arbitrary: d) (auto simp: dict_set_keys)

lemma dict_set_length: "length d \<le> length (dict_set k v d)"
  by (induction d) auto

lemma chop_loop_Nil_any:
  "chop_loop cl vs ss sr full_audio_id [] c d = (Inr c, d)"
  by simp

lemma chop_loop_zero_rate:
  "chop_loop cl vs ss 0 full_audio_id (i # rest) c d = (Inl ZeroDivisionError, d)"
  by simp

lemma chop_loop_Cons:
  assumes "sr \<noteq> 0"
  shows "chop_loop cl vs ss sr full_audio_id (m # rest) (c + int m) d =
           chop_loop cl vs ss sr full_audio_id rest (c + int (Suc m))
             (assign_all [chop_entry cl (span_start vs + ss / sr) full_audio_id c m] d)"
  using assms by (simp add: chop_entry_def Let_def ac_simps)

lemma upt_shift: "[m..<m + Suc k] = m # [Suc m..<Suc m + k]"
  by (simp add: upt_conv_Cons del: upt_Suc)

lemma chop_loop_upt:
  assumes "sr \<noteq> 0"
  shows "chop_loop cl vs ss sr full_audio_id [m..<m + k] (c + int m) d =
           (Inr (c + int (m + k)),
            assign_all (map (chop_entry cl (span_start vs + ss / sr) full_audio_id c) [m..<m + k]) d)"
proof (induction k arbitrary: m d)
  case 0
  then show ?case by simp
next
  case (Suc k)
  have "chop_loop cl vs ss sr full_audio_id (m # [Suc m..<Suc m + k]) (c + int m) d =
          (Inr (c + int (Suc m + k)),
           assign_all (map (chop_entry cl (span_start vs + ss / sr) full_audio_id c)
             [Suc m..<Suc m + k])
             (assign_all [chop_entry cl (span_start vs + ss / sr) full_audio_id c m] d))"
    unfolding chop_loop_Cons [OF assms] by (rule Suc.IH)
  then show ?case unfolding upt_shift
    by (simp only: list.map assign_all_Cons assign_all_Nil add_Suc_right add_Suc)
qed

lemma well_keyed_chop_entry:
  "well_keyed full_audio_id (c + int m) (chop_entry cl base full_audio_id c m # rest) =
     well_keyed full_audio_id (c + int (Suc m)) rest"
  by (simp add: chop_entry_def slice_ms_def ac_simps)

lemma chop_entries_well_keyed:
  "well_keyed full_audio_id (c + int m) (map (chop_entry cl base full_audio_id c) [m..<m + k])"
proof (induction k arbitrary: m)
  case 0
  then show ?case by simp
next
  case (Suc k)
  show ?case by (simp only: upt_shift list.map well_keyed_chop_entry Suc.IH)
qed

lemma chop_entry_duration [simp]:
  "slice_duration (snd (chop_entry cl base full_audio_id c i)) = cl"
  by (simp add: chop_entry_def slice_ms_def slice_duration_def sec_to_millis_def algebra_simps)

lemma chop_entry_consecutive:
  "slice_end (snd (chop_entry cl base full_audio_id c i)) =
     slice_start (snd (chop_entry cl base full_audio_id c (Suc i)))"
  by (simp add: chop_entry_def slice_ms_def add.commute)

lemma chop_long_segment_duration_result:
  assumes "halve_loop upper_limit (D / 2) = Some cl" "cl \<noteq> 0" "sr \<noteq> 0"
  shows "chop_long_segment_duration D upper_limit vs ss sr full_audio_id d c =
           Some (Inr (c + int (nat (py_int (D / cl)))),
             assign_all (map (chop_entry cl (span_start vs + ss / sr) full_audio_id c)
               [0..<nat (py_int (D / cl))]) d)"
  using assms chop_loop_upt [OF assms(3), of cl vs ss full_audio_id 0 "nat (py_int (D / cl))" c d]
  by (simp add: chop_long_segment_duration_def)

lemma halve_loop_halvings:
  assumes "0 < U" "U < D"
  shows "halve_loop U (D / 2) = Some (D / 2 ^ halvings U D)"
proof -
  let ?k = "halvings U D"
  note h = halvings_props [OF assms]
  from h(3) obtain m where m: "?k = Suc m" by (cases ?k) auto
  have le: "D / 2 / 2 ^ m \<le> U" using h(1) m by simp
  have gt: "\<forall>j<m. U < D / 2 / 2 ^ j"
  proof (intro allI impI)
    fix j assume "j < m"
    then have "Suc j < ?k" using m by simp
    with h(2) have "U < D / 2 ^ Suc j" by blast
    then show "U < D / 2 / 2 ^ j" by simp
  qed
  show ?thesis using halve_loop_iter [OF le gt] m by simp
qed

lemma py_int_of_nat [simp]: "py_int (of_nat n) = int n"
  by (simp add: py_int_def)

lemma py_int_two_power: "py_int (2 ^ k) = 2 ^ k"
proof -
  have "(2::rat) ^ k = of_nat (2 ^ k)" by simp
  then show ?thesis by (simp only: py_int_of_nat) simp
qed

lemma count_halved:
  assumes "D \<noteq> 0"
  shows "nat (py_int (D / (D / 2 ^ k))) = 2 ^ k"
proof -
  have "D / (D / 2 ^ k) = 2 ^ k" using assms by simp
  then show ?thesis by (simp add: py_int_two_power nat_power_eq)
qed

lemma chop_long_segment_duration_halvings:
  assumes "0 < upper_limit" "upper_limit < D" "sr \<noteq> 0"
  shows "chop_long_segment_duration D upper_limit vs ss sr full_audio_id d c =
           Some (Inr (c + 2 ^ halvings upper_limit D),
             assign_all (map (chop_entry (D / 2 ^ halvings upper_limit D)
                 (span_start vs + ss / sr) full_audio_id c)
               [0..<2 ^ halvings upper_limit D]) d)"
proof -
  have D: "D \<noteq> 0" using assms by simp
  then have cl: "D / 2 ^ halvings upper_limit D \<noteq> 0" by simp
  show ?thesis
    using chop_long_segment_duration_result [OF halve_loop_halvings [OF assms(1,2)] cl assms(3),
        of vs ss full_audio_id d c]
    by (simp only: count_halved [OF D] of_nat_power of_nat_numeral)
qed

section \<open>What a call writes\<close>

lemma emitsI:
  "out = Some (Inr (c + int (length es)), assign_all es d) \<Longrightarrow> well_keyed full_audio_id c es
     \<Longrightarrow> P es \<Longrightarrow> emits full_audio_id P c d out"
  unfolding emits_def by blast

lemma emitsE:
  assumes "emits full_audio_id P c d out"
  obtains es where "out = Some (Inr (c + int (length es)), assign_all es d)"
    "well_keyed full_audio_id c es" "P es"
  using assms unfolding emits_def by blast

lemma emits_weaken:
  "emits full_audio_id P c d out \<Longrightarrow> (\<And>es. P es \<Longrightarrow> Q es) \<Longrightarrow> emits full_audio_id Q c d out"
  unfolding emits_def by blast


lemma for_each_emits:
  assumes "\<And>x c d. x \<in> set xs \<Longrightarrow> emits full_audio_id (P x) c d (body x c d)"
  shows "emits full_audio_id (\<lambda>es. \<exists>ess. es = concat ess \<and> list_all2 P xs ess) c d
           (for_each body xs c d)"
  using assms
proof (induction xs arbitrary: c d)
  case Nil
  show ?case by (rule emitsI [where es = "[]"]) simp_all
next
  case (Cons x xs)
  have "emits full_audio_id (P x) c d (body x c d)" by (rule Cons.prems) simp
  then obtain es1 where es1: "body x c d = Some (Inr (c + int (length es1)), assign_all es1 d)"
    "well_keyed full_audio_id c es1" "P x es1" by (rule emitsE)
  have "emits full_audio_id (\<lambda>es. \<exists>ess. es = concat ess \<and> list_all2 P xs ess)
          (c + int (length es1)) (assign_all es1 d)
          (for_each body xs (c + int (length es1)) (assign_all es1 d))"
    by (rule Cons.IH) (rule Cons.prems, simp)
  then obtain es2 ess where es2:
    "for_each body xs (c + int (length es1)) (assign_all es1 d) =
       Some (Inr (c + int (length es1) + int (length es2)), assign_all es2 (assign_all es1 d))"
    "well_keyed full_audio_id (c + int (length es1)) es2"
    "es2 = concat ess" "list_all2 P xs ess"
    by (auto elim!: emitsE)
  show ?case
  proof (rule emitsI [where es = "es1 @ es2"])
    show "for_each body (x # xs) c d =
            Some (Inr (c + int (length (es1 @ es2))), assign_all (es1 @ es2) d)"
      using es1(1) es2(1) by (simp add: assign_all_append)
    show "well_keyed full_audio_id c (es1 @ es2)"
      using es1(2) es2(2) by (simp add: well_keyed_append)
    have "es1 @ es2 = concat (es1 # ess)" using es2(3) by simp
    moreover have "list_all2 P (x # xs) (es1 # ess)" using es1(3) es2(4) by simp
    ultimately show "\<exists>ess. es1 @ es2 = concat ess \<and> list_all2 P (x # xs) ess" by blast
  qed
qed



section \<open>One sub-span\<close>

lemma total_duration_Nil [simp]: "total_duration [] = 0"
  by (simp add: total_duration_def)

lemma total_duration_append [simp]:
  "total_duration (es @ fs) = total_duration es + total_duration fs"
  by (simp add: total_duration_def)

lemma total_duration_chops:
  "total_duration (map (chop_entry cl base full_audio_id c) xs) = of_nat (length xs) * cl"
  by (simp add: total_duration_def comp_def sum_list_triv)

lemma halved_length_bounds:
  assumes "0 < U" "U < D"
  shows "D / 2 ^ halvings U D \<le> U" "U / 2 < D / 2 ^ halvings U D"
proof -
  note h = halvings_props [OF assms]
  show "D / 2 ^ halvings U D \<le> U" by (rule h(1))
  from h(3) obtain m where m: "halvings U D = Suc m" by (cases "halvings U D") auto
  with h(2) have "U < D / 2 ^ m" by simp
  then show "U / 2 < D / 2 ^ halvings U D" unfolding m by simp
qed

lemma slice_duration_slice_ms [simp]:
  "slice_duration (slice_ms (sec_to_millis a) (sec_to_millis b)) = b - a"
  by (simp add: slice_duration_def slice_ms_def sec_to_millis_def diff_divide_distrib)

lemma chop_emits:
  assumes "0 < upper_limit" "upper_limit < D" "sr \<noteq> 0"
  shows "emits full_audio_id
           (\<lambda>es. (\<forall>e \<in> set es. band_or_chop lower_limit upper_limit (snd e))
                \<and> total_duration es = D)
           c d (chop_long_segment_duration D upper_limit vs ss sr full_audio_id d c)"
proof -
  let ?k = "halvings upper_limit D"
  let ?es = "map (chop_entry (D / 2 ^ ?k) (span_start vs + ss / sr) full_audio_id c) [0..<2 ^ ?k]"
  show ?thesis
  proof (rule emitsI [where es = ?es])
    show "chop_long_segment_duration D upper_limit vs ss sr full_audio_id d c =
            Some (Inr (c + int (length ?es)), assign_all ?es d)"
      using chop_long_segment_duration_halvings [OF assms, of vs ss full_audio_id d c] by simp
    show "well_keyed full_audio_id c ?es"
      using chop_entries_well_keyed [of full_audio_id c 0 _ _ "2 ^ ?k"] by simp
    have "\<forall>e \<in> set ?es. band_or_chop lower_limit upper_limit (snd e)"
      using halved_length_bounds [OF assms(1,2)] by (auto simp: band_or_chop_def)
    moreover have "total_duration ?es = D"
      by (simp add: total_duration_chops)
    ultimately show "(\<forall>e \<in> set ?es. band_or_chop lower_limit upper_limit (snd e))
        \<and> total_duration ?es = D" by blast
  qed
qed

lemma non_mute_step_emits:
  assumes "0 < upper_limit" "sr \<noteq> 0"
  shows "emits full_audio_id
           (\<lambda>es. (\<forall>e \<in> set es. band_or_chop lower_limit upper_limit (snd e))
                \<and> (es = [] \<or> total_duration es = snd x / sr - fst x / sr))
           c d (non_mute_step vs sr lower_limit upper_limit full_audio_id x c d)"
proof -
  let ?D = "snd x / sr - fst x / sr"
  have dur: "span_start vs + snd x / sr - (span_start vs + fst x / sr) = ?D"
    by simp
  consider (band) "lower_limit \<le> ?D" "?D \<le> upper_limit"
    | (long) "upper_limit < ?D" | (short) "\<not> lower_limit \<le> ?D" "\<not> upper_limit < ?D"
    by linarith
  then show ?thesis
  proof cases
    case band
    let ?s = "sec_to_millis (span_start vs + fst x / sr)"
    let ?e = "sec_to_millis (span_start vs + snd x / sr)"
    show ?thesis
    proof (rule emitsI [where es = "[(segment_key full_audio_id c ?s ?e, slice_ms ?s ?e)]"])
      show "non_mute_step vs sr lower_limit upper_limit full_audio_id x c d =
              Some (Inr (c + int (length [(segment_key full_audio_id c ?s ?e, slice_ms ?s ?e)])),
                assign_all [(segment_key full_audio_id c ?s ?e, slice_ms ?s ?e)] d)"
        using band assms(2) by (simp add: non_mute_step_def dur Let_def)
      show "well_keyed full_audio_id c [(segment_key full_audio_id c ?s ?e, slice_ms ?s ?e)]"
        by (simp add: slice_ms_def)
      show "(\<forall>e \<in> set [(segment_key full_audio_id c ?s ?e, slice_ms ?s ?e)].
               band_or_chop lower_limit upper_limit (snd e))
          \<and> ([(segment_key full_audio_id c ?s ?e, slice_ms ?s ?e)] = []
              \<or> total_duration [(segment_key full_audio_id c ?s ?e, slice_ms ?s ?e)] = ?D)"
        using band by (simp add: band_or_chop_def total_duration_def dur)
    qed
  next
    case long
    have "non_mute_step vs sr lower_limit upper_limit full_audio_id x c d =
            chop_long_segment_duration ?D upper_limit vs (fst x) sr full_audio_id d c"
      using long assms(2) by (simp add: non_mute_step_def dur Let_def)
    then show ?thesis
      using chop_emits [OF assms(1) long assms(2), of full_audio_id lower_limit c d vs "fst x"]
      by (auto elim: emits_weaken)
  next
    case short
    show ?thesis
    proof (rule emitsI [where es = "[]"])
      show "non_mute_step vs sr lower_limit upper_limit full_audio_id x c d =
              Some (Inr (c + int (length [])), assign_all [] d)"
        using short assms(2) by (simp add: non_mute_step_def dur Let_def)
    qed simp_all
  qed
qed

section \<open>The loops over sub-spans and spans\<close>

lemma process_emits:
  assumes "0 < upper_limit" "sr \<noteq> 0"
  shows "emits full_audio_id
           (\<lambda>es. \<exists>ess. es = concat ess
              \<and> list_all2 (\<lambda>x es. (\<forall>e \<in> set es. band_or_chop lower_limit upper_limit (snd e))
                    \<and> (es = [] \<or> total_duration es = snd x / sr - fst x / sr)) xs ess)
           c d (process_non_mute_segments xs vs sr lower_limit upper_limit full_audio_id c d)"
  unfolding process_non_mute_segments_def
  by (rule for_each_emits) (rule non_mute_step_emits [OF assms])

lemma concat_all_weak:
  "list_all2 (\<lambda>x es. (\<forall>e \<in> set es. Q e) \<and> R x es) xs ess \<Longrightarrow> \<forall>e \<in> set (concat ess). Q e"
  by (induction xs ess rule: list_all2_induct) auto

lemma process_emits_all:
  assumes "0 < upper_limit" "sr \<noteq> 0"
  shows "emits full_audio_id (\<lambda>es. \<forall>e \<in> set es. band_or_chop lower_limit upper_limit (snd e))
           c d (process_non_mute_segments xs vs sr lower_limit upper_limit full_audio_id c d)"
proof (rule emits_weaken [OF process_emits [OF assms]])
  fix es
  assume "\<exists>ess. es = concat ess
     \<and> list_all2 (\<lambda>x es. (\<forall>e \<in> set es. band_or_chop lower_limit upper_limit (snd e))
           \<and> (es = [] \<or> total_duration es = snd x / sr - fst x / sr)) xs ess"
  then obtain ess where es: "es = concat ess"
    and all: "list_all2 (\<lambda>x es. (\<forall>e \<in> set es. band_or_chop lower_limit upper_limit (snd e))
           \<and> (es = [] \<or> total_duration es = snd x / sr - fst x / sr)) xs ess"
    by blast
  from all have "\<forall>e \<in> set (concat ess). band_or_chop lower_limit upper_limit (snd e)"
    by (rule concat_all_weak)
  then show "\<forall>e \<in> set es. band_or_chop lower_limit upper_limit (snd e)" using es by simp
qed

lemma single_emits:
  assumes "out = Some (Inr (c + 1), dict_set (segment_key full_audio_id c s e) (slice_ms s e) d)"
    "P [(segment_key full_audio_id c s e, slice_ms s e)]"
  shows "emits full_audio_id P c d out"
  by (rule emitsI [where es = "[(segment_key full_audio_id c s e, slice_ms s e)]"])
     (use assms in \<open>simp_all add: slice_ms_def\<close>)

lemma none_emits:
  assumes "out = Some (Inr c, d)" "P []"
  shows "emits full_audio_id P c d out"
  by (rule emitsI [where es = "[]"]) (use assms in simp_all)



lemma keys_below_Nil [simp]: "keys_below full_audio_id c []"
  by (simp add: keys_below_def)

lemma well_keyed_keys_below:
  "well_keyed full_audio_id 1 d \<Longrightarrow> keys_below full_audio_id (1 + int (length d)) d"
  using keys_below_append [of full_audio_id 1 "[]" d] by simp





section \<open>Evaluating keys and runs\<close>

lemma str_nat_digit: "n < 10 \<Longrightarrow> str_nat n = [digit_char n]"
  by (subst str_nat.simps) simp

lemma str_nat_more: "\<not> n < 10 \<Longrightarrow> str_nat n = str_nat (n div 10) @ [digit_char (n mod 10)]"
  by (subst str_nat.simps) simp

lemma replicate_three: "replicate 3 x = [x, x, x]"
  by (simp add: numeral_3_eq_3)

lemma replicate_two: "replicate 2 x = [x, x]"
  by (simp add: numeral_2_eq_2)

lemmas key_eval = segment_key_def format_04_def zero_pad_def str_int_def str_nat_digit str_nat_more
  digit_char_def py_int_def replicate_three replicate_two sec_to_millis_def slice_ms_def

lemmas run_eval = get_split_audio_def get_split_audio_using_silero_def pyannote_step_def
  silero_step_def process_non_mute_segments_def non_mute_step_def frame_pairs_def all_loud_def
  chop_long_segment_duration_def halve_loop.simps upt_conv_Cons sec_to_frame_def
  slice_duration_def Let_def



section \<open>The segments of a run\<close>




section \<open>The chops of a sub-span\<close>


lemma chop_entries_nth:
  assumes "i < n"
  shows "map (chop_entry cl base full_audio_id c) [0..<n] ! i = chop_entry cl base full_audio_id c i"
  using assms by simp

lemma chop_entry_slice:
  "slice_start (snd (chop_entry cl base full_audio_id c i)) = sec_to_millis (base + cl * of_nat i)"
  "slice_end (snd (chop_entry cl base full_audio_id c i)) = sec_to_millis (base + cl * (of_nat i + 1))"
  by (simp_all add: chop_entry_def slice_ms_def)

lemma chop_entries_fresh:
  assumes "keys_below full_audio_id c d"
  shows "assign_all (map (chop_entry cl base full_audio_id c) [0..<n]) d =
           d @ map (chop_entry cl base full_audio_id c) [0..<n]"
  using assign_all_fresh [OF assms, of "map (chop_entry cl base full_audio_id c) [0..<n]"]
    chop_entries_well_keyed [of full_audio_id c 0 cl base n] by simp




lemma floor_halved:
  fixes D :: rat
  assumes "D \<noteq> 0"
  shows "\<lfloor>D / (D / 2 ^ k)\<rfloor> = 2 ^ k"
proof -
  have "D / (D / 2 ^ k) = of_int (2 ^ k)" using assms by simp
  then show ?thesis by (simp only: floor_of_int)
qed

text \<open>
  C9: in exact arithmetic, for \<open>0 < upper_limit < D\<close> (and a sampling rate that is not
  zero) the halving returns \<open>D / 2 ^ k\<close> with \<open>k \<ge> 1\<close>, \<open>\<lfloor>D / chop_length\<rfloor>\<close> is
  \<open>2 ^ k\<close>, and the chopper writes \<open>2 ^ k\<close> entries that tile the sub-span: the first
  chop starts where the sub-span starts, each chop ends where the next one starts, the
  last chop ends \<open>D\<close> seconds after the start, and the durations add up to \<open>D\<close>.
\<close>

theorem chops_tile_exactly:
  assumes "0 < upper_limit" "upper_limit < D" "sr \<noteq> 0"
  shows "\<exists>k es. 1 \<le> k
           \<and> halve_loop upper_limit (D / 2) = Some (D / 2 ^ k)
           \<and> \<lfloor>D / (D / 2 ^ k)\<rfloor> = 2 ^ k
           \<and> length es = 2 ^ k
           \<and> chop_long_segment_duration D upper_limit vs split_start sr full_audio_id d c =
               Some (Inr (c + 2 ^ k), assign_all es d)
           \<and> (keys_below full_audio_id c d \<longrightarrow> assign_all es d = d @ es)
           \<and> slice_start (snd (es ! 0)) = sec_to_millis (span_start vs + split_start / sr)
           \<and> (\<forall>i. Suc i < 2 ^ k \<longrightarrow>
                 slice_end (snd (es ! i)) = slice_start (snd (es ! Suc i)))
           \<and> slice_end (snd (es ! (2 ^ k - 1))) =
               sec_to_millis (span_start vs + split_start / sr + D)
           \<and> (\<forall>i<2 ^ k. slice_duration (snd (es ! i)) = D / 2 ^ k)
           \<and> total_duration es = D"
proof -
  let ?k = "halvings upper_limit D"
  let ?base = "span_start vs + split_start / sr"
  let ?es = "map (chop_entry (D / 2 ^ ?k) ?base full_audio_id c) [0..<2 ^ ?k]"
  have D: "D \<noteq> 0" using assms by simp
  have k: "1 \<le> ?k" by (rule halvings_props(3) [OF assms(1,2)])
  have h: "halve_loop upper_limit (D / 2) = Some (D / 2 ^ ?k)"
    by (rule halve_loop_halvings [OF assms(1,2)])
  have fl: "\<lfloor>D / (D / 2 ^ ?k)\<rfloor> = 2 ^ ?k" by (rule floor_halved [OF D])
  have len: "length ?es = 2 ^ ?k" by simp
  have res: "chop_long_segment_duration D upper_limit vs split_start sr full_audio_id d c =
               Some (Inr (c + 2 ^ ?k), assign_all ?es d)"
    by (rule chop_long_segment_duration_halvings [OF assms])
  have fresh: "keys_below full_audio_id c d \<longrightarrow> assign_all ?es d = d @ ?es"
    using chop_entries_fresh by blast
  have first: "slice_start (snd (?es ! 0)) = sec_to_millis ?base"
    by (simp add: chop_entry_slice)
  have cons: "\<forall>i. Suc i < 2 ^ ?k \<longrightarrow>
                 slice_end (snd (?es ! i)) = slice_start (snd (?es ! Suc i))"
    by (simp add: chop_entry_consecutive)
  have "(of_nat (2 ^ ?k - 1) + 1 :: rat) = 2 ^ ?k"
    by (simp add: of_nat_diff)
  then have "D / 2 ^ ?k * (of_nat (2 ^ ?k - 1) + 1) = D" by simp
  then have last: "slice_end (snd (?es ! (2 ^ ?k - 1))) = sec_to_millis (?base + D)"
    by (simp add: chop_entry_slice)
  have dur: "\<forall>i<2 ^ ?k. slice_duration (snd (?es ! i)) = D / 2 ^ ?k" by simp
  have tot: "total_duration ?es = D" by (simp add: total_duration_chops)
  from k h fl len res fresh first cons last dur tot show ?thesis by blast
qed

theorem chops_tile_exactly_witness:
  "(0::rat) < 8 \<and> (8::rat) < 20 \<and> (16000::rat) \<noteq> 0
   \<and> (\<exists>k es. 1 \<le> k
           \<and> halve_loop 8 (20 / 2) = Some (20 / 2 ^ k)
           \<and> \<lfloor>(20::rat) / (20 / 2 ^ k)\<rfloor> = 2 ^ k
           \<and> length es = 2 ^ k
           \<and> chop_long_segment_duration 20 8 \<lparr>span_start = 2, span_end = 30\<rparr> 16000 16000 ''a'' [] 1 =
               Some (Inr (1 + 2 ^ k), assign_all es [])
           \<and> assign_all es [] = [] @ es
           \<and> slice_start (snd (es ! 0)) = sec_to_millis (2 + 16000 / 16000)
           \<and> slice_end (snd (es ! (2 ^ k - 1))) = sec_to_millis (2 + 16000 / 16000 + 20)
           \<and> total_duration es = 20)"
proof -
  have a: "(0::rat) < 8" and b: "(8::rat) < 20" and c: "(16000::rat) \<noteq> 0" by simp_all
  have k: "keys_below ''a'' 1 []" by simp
  from chops_tile_exactly [OF a b c, of "\<lparr>span_start = 2, span_end = 30\<rparr>" 16000 "''a''" "[]" 1]
  obtain k es where "1 \<le> k"
      "halve_loop 8 (20 / 2) = Some (20 / 2 ^ k)"
      "\<lfloor>(20::rat) / (20 / 2 ^ k)\<rfloor> = 2 ^ k"
      "length es = 2 ^ k"
      "chop_long_segment_duration 20 8 \<lparr>span_start = 2, span_end = 30\<rparr> 16000 16000 ''a'' [] 1 =
               Some (Inr (1 + 2 ^ k), assign_all es [])"
      "keys_below ''a'' 1 [] \<longrightarrow> assign_all es [] = [] @ es"
      "slice_start (snd (es ! 0)) = sec_to_millis (span_start \<lparr>span_start = 2, span_end = 30\<rparr> + 16000 / 16000)"
      "slice_end (snd (es ! (2 ^ k - 1))) =
         sec_to_millis (span_start \<lparr>span_start = 2, span_end = 30\<rparr> + 16000 / 16000 + 20)"
      "total_duration es = 20"
    by blast
  with a b c k show ?thesis by (intro conjI exI [of _ k] exI [of _ es]) simp_all
qed

section \<open>What a call writes, whether it returns or not\<close>

lemma writesI:
  "d' = assign_all es d \<Longrightarrow> well_keyed full_audio_id c es \<Longrightarrow> P es
     \<Longrightarrow> (\<And>c'. r = Inr c' \<Longrightarrow> c' = c + int (length es))
     \<Longrightarrow> writes full_audio_id P c d (Some (r, d'))"
  unfolding writes_def by (auto split: sum.splits)

lemma writes_None [simp]: "writes full_audio_id P c d None"
  by (simp add: writes_def)

lemma writesE:
  assumes "writes full_audio_id P c d out" "out = Some (r, d')"
  obtains es where "d' = assign_all es d" "well_keyed full_audio_id c es" "P es"
    "\<And>c'. r = Inr c' \<Longrightarrow> c' = c + int (length es)"
proof -
  from assms obtain es where es: "d' = assign_all es d" "well_keyed full_audio_id c es" "P es"
    "case r of Inl e \<Rightarrow> True | Inr c' \<Rightarrow> c' = c + int (length es)"
    unfolding writes_def by auto
  from es(4) have "\<And>c'. r = Inr c' \<Longrightarrow> c' = c + int (length es)" by simp
  with es(1-3) that show thesis by blast
qed

lemma writes_weaken:
  "writes full_audio_id P c d out \<Longrightarrow> (\<And>es. P es \<Longrightarrow> Q es) \<Longrightarrow> writes full_audio_id Q c d out"
  unfolding writes_def by (auto split: option.splits sum.splits)

lemma emits_writes: "emits full_audio_id P c d out \<Longrightarrow> writes full_audio_id P c d out"
  unfolding emits_def writes_def by auto

lemma halve_loop_partial:
  assumes "halve_loop U c = Some r"
  shows "r \<le> U \<and> (r = c \<or> U < 2 * r) \<and> (c \<noteq> 0 \<longrightarrow> r \<noteq> 0)"
proof (rule halve_loop.raw_induct
    [where P = "\<lambda>U c r. r \<le> U \<and> (r = c \<or> U < 2 * r) \<and> (c \<noteq> 0 \<longrightarrow> r \<noteq> 0)", OF _ assms])
  fix f :: "rat \<Rightarrow> rat \<Rightarrow> rat option" and U c r
  assume IH: "\<And>a b y. f a b = Some y \<Longrightarrow> y \<le> a \<and> (y = b \<or> a < 2 * y) \<and> (b \<noteq> 0 \<longrightarrow> y \<noteq> 0)"
    and eq: "(if U < c then f U (c / 2) else Some c) = Some r"
  show "r \<le> U \<and> (r = c \<or> U < 2 * r) \<and> (c \<noteq> 0 \<longrightarrow> r \<noteq> 0)"
  proof (cases "U < c")
    case True
    with eq have "f U (c / 2) = Some r" by simp
    from IH [OF this] True show ?thesis by auto
  next
    case False
    with eq show ?thesis by simp
  qed
qed

lemma chop_loop_writes:
  "writes full_audio_id (\<lambda>es. \<forall>e \<in> set es. slice_duration (snd e) = cl) c d
     (Some (chop_loop cl vs ss sr full_audio_id ixs c d))"
proof (cases "sr = 0")
  case True
  show ?thesis
  proof (cases ixs)
    case Nil
    then show ?thesis by (auto intro: writesI [where es = "[]"])
  next
    case (Cons i rest)
    then show ?thesis using True by (auto intro: writesI [where es = "[]"])
  qed
next
  case False
  show ?thesis
  proof (induction ixs arbitrary: c d)
    case Nil
    show ?case by (auto intro: writesI [where es = "[]"])
  next
    case (Cons i rest)
    let ?s = "sec_to_millis (span_start vs + ss / sr + cl * of_nat i)"
    let ?e = "sec_to_millis (span_start vs + ss / sr + cl * (of_nat i + 1))"
    let ?k = "segment_key full_audio_id c ?s ?e"
    obtain r d' where out: "chop_loop cl vs ss sr full_audio_id rest (c + 1)
        (dict_set ?k (slice_ms ?s ?e) d) = (r, d')" by (cases "chop_loop cl vs ss sr full_audio_id rest (c + 1)
        (dict_set ?k (slice_ms ?s ?e) d)")
    from Cons.IH [of "c + 1" "dict_set ?k (slice_ms ?s ?e) d"] out
    obtain es where es: "d' = assign_all es (dict_set ?k (slice_ms ?s ?e) d)"
      "well_keyed full_audio_id (c + 1) es" "\<forall>e \<in> set es. slice_duration (snd e) = cl"
      "\<And>c'. r = Inr c' \<Longrightarrow> c' = c + 1 + int (length es)"
      by (auto elim!: writesE)
    have step: "chop_loop cl vs ss sr full_audio_id (i # rest) c d = (r, d')"
      using False out by (simp add: Let_def)
    show ?case unfolding step
    proof (rule writesI [where es = "(?k, slice_ms ?s ?e) # es"])
      show "d' = assign_all ((?k, slice_ms ?s ?e) # es) d" using es(1) by simp
      show "well_keyed full_audio_id c ((?k, slice_ms ?s ?e) # es)"
        using es(2) by (simp add: slice_ms_def)
      show "\<forall>e \<in> set ((?k, slice_ms ?s ?e) # es). slice_duration (snd e) = cl"
        using es(3) by (simp add: algebra_simps)
      show "\<And>c'. r = Inr c' \<Longrightarrow> c' = c + int (length ((?k, slice_ms ?s ?e) # es))"
        using es(4) by simp
    qed
  qed
qed

lemma chop_writes:
  assumes "upper_limit < D"
  shows "writes full_audio_id (\<lambda>es. \<forall>e \<in> set es. band_or_chop lower_limit upper_limit (snd e))
           c d (chop_long_segment_duration D upper_limit vs ss sr full_audio_id d c)"
proof (cases "halve_loop upper_limit (D / 2)")
  case None
  then show ?thesis by (simp add: chop_long_segment_duration_def)
next
  case (Some cl)
  from halve_loop_partial [OF Some] assms have cl: "cl \<le> upper_limit" "upper_limit / 2 < cl"
    by auto
  show ?thesis
  proof (cases "cl = 0")
    case True
    then show ?thesis using Some
      by (auto simp: chop_long_segment_duration_def intro: writesI [where es = "[]"])
  next
    case False
    have "writes full_audio_id (\<lambda>es. \<forall>e \<in> set es. slice_duration (snd e) = cl) c d
            (chop_long_segment_duration D upper_limit vs ss sr full_audio_id d c)"
      using Some False chop_loop_writes by (simp add: chop_long_segment_duration_def)
    then show ?thesis
      by (rule writes_weaken) (use cl in \<open>simp add: band_or_chop_def\<close>)
  qed
qed

lemma chop_writes_any:
  "writes full_audio_id (\<lambda>es. True) c d
     (chop_long_segment_duration D upper_limit vs ss sr full_audio_id d c)"
proof (cases "halve_loop upper_limit (D / 2)")
  case None
  then show ?thesis by (simp add: chop_long_segment_duration_def)
next
  case (Some cl)
  show ?thesis
  proof (cases "cl = 0")
    case True
    then show ?thesis using Some
      by (auto simp: chop_long_segment_duration_def intro: writesI [where es = "[]"])
  next
    case False
    have "writes full_audio_id (\<lambda>es. \<forall>e \<in> set es. slice_duration (snd e) = cl) c d
            (chop_long_segment_duration D upper_limit vs ss sr full_audio_id d c)"
      using Some False chop_loop_writes by (simp add: chop_long_segment_duration_def)
    then show ?thesis by (rule writes_weaken) simp
  qed
qed

lemma for_each_writes:
  assumes "\<And>x c d. x \<in> set xs \<Longrightarrow>
             writes full_audio_id (\<lambda>es. \<forall>e \<in> set es. Q e) c d (body x c d)"
  shows "writes full_audio_id (\<lambda>es. \<forall>e \<in> set es. Q e) c d (for_each body xs c d)"
  using assms
proof (induction xs arbitrary: c d)
  case Nil
  show ?case by (auto intro: writesI [where es = "[]"])
next
  case (Cons x xs)
  have w1: "writes full_audio_id (\<lambda>es. \<forall>e \<in> set es. Q e) c d (body x c d)"
    by (rule Cons.prems) simp
  show ?case
  proof (cases "body x c d")
    case None
    then show ?thesis by simp
  next
    case (Some o1)
    obtain r1 d1 where o1: "o1 = (r1, d1)" by (cases o1)
    from w1 Some o1 obtain es1 where es1: "d1 = assign_all es1 d"
      "well_keyed full_audio_id c es1" "\<forall>e \<in> set es1. Q e"
      "\<And>c'. r1 = Inr c' \<Longrightarrow> c' = c + int (length es1)"
      by (auto elim!: writesE)
    show ?thesis
    proof (cases r1)
      case (Inl e)
      then have "for_each body (x # xs) c d = Some (Inl e, d1)" using Some o1 by simp
      then show ?thesis using es1 by (auto intro: writesI [where es = es1])
    next
      case (Inr c1)
      then have c1: "c1 = c + int (length es1)" by (rule es1(4))
      have step: "for_each body (x # xs) c d = for_each body xs c1 d1"
        using Some o1 Inr by simp
      have w2: "writes full_audio_id (\<lambda>es. \<forall>e \<in> set es. Q e) c1 d1 (for_each body xs c1 d1)"
        by (rule Cons.IH) (rule Cons.prems, simp)
      show ?thesis
      proof (cases "for_each body xs c1 d1")
        case None
        then show ?thesis using step by simp
      next
        case (Some o2)
        obtain r2 d2 where o2: "o2 = (r2, d2)" by (cases o2)
        from w2 Some o2 obtain es2 where es2: "d2 = assign_all es2 d1"
          "well_keyed full_audio_id c1 es2" "\<forall>e \<in> set es2. Q e"
          "\<And>c'. r2 = Inr c' \<Longrightarrow> c' = c1 + int (length es2)"
          by (auto elim!: writesE)
        have "writes full_audio_id (\<lambda>es. \<forall>e \<in> set es. Q e) c d (Some (r2, d2))"
        proof (rule writesI [where es = "es1 @ es2"])
          show "d2 = assign_all (es1 @ es2) d" using es1(1) es2(1) by (simp add: assign_all_append)
          show "well_keyed full_audio_id c (es1 @ es2)"
            using es1(2) es2(2) c1 by (simp add: well_keyed_append)
          show "\<forall>e \<in> set (es1 @ es2). Q e" using es1(3) es2(3) by auto
          show "\<And>c'. r2 = Inr c' \<Longrightarrow> c' = c + int (length (es1 @ es2))"
            using es2(4) c1 by simp
        qed
        then show ?thesis using step Some o2 by simp
      qed
    qed
  qed
qed

lemma non_mute_step_writes:
  "writes full_audio_id (\<lambda>es. \<forall>e \<in> set es. band_or_chop lower_limit upper_limit (snd e))
     c d (non_mute_step vs sr lower_limit upper_limit full_audio_id x c d)"
proof (cases "sr = 0")
  case True
  then show ?thesis by (auto simp: non_mute_step_def intro: writesI [where es = "[]"])
next
  case False
  let ?D = "snd x / sr - fst x / sr"
  have dur: "span_start vs + snd x / sr - (span_start vs + fst x / sr) = ?D" by simp
  consider (band) "lower_limit \<le> ?D" "?D \<le> upper_limit"
    | (long) "upper_limit < ?D" | (short) "\<not> lower_limit \<le> ?D" "\<not> upper_limit < ?D"
    by linarith
  then show ?thesis
  proof cases
    case band
    have "emits full_audio_id (\<lambda>es. \<forall>e \<in> set es. band_or_chop lower_limit upper_limit (snd e))
            c d (non_mute_step vs sr lower_limit upper_limit full_audio_id x c d)"
      by (rule single_emits [where s = "sec_to_millis (span_start vs + fst x / sr)"
            and e = "sec_to_millis (span_start vs + snd x / sr)"])
         (use band False in \<open>simp_all add: non_mute_step_def Let_def band_or_chop_def\<close>)
    then show ?thesis by (rule emits_writes)
  next
    case long
    have "non_mute_step vs sr lower_limit upper_limit full_audio_id x c d =
            chop_long_segment_duration ?D upper_limit vs (fst x) sr full_audio_id d c"
      using long False by (simp add: non_mute_step_def dur Let_def)
    then show ?thesis using chop_writes [OF long] by simp
  next
    case short
    have "emits full_audio_id (\<lambda>es. \<forall>e \<in> set es. band_or_chop lower_limit upper_limit (snd e))
            c d (non_mute_step vs sr lower_limit upper_limit full_audio_id x c d)"
      by (rule none_emits) (use short False in \<open>simp_all add: non_mute_step_def Let_def\<close>)
    then show ?thesis by (rule emits_writes)
  qed
qed

lemma process_writes:
  "writes full_audio_id (\<lambda>es. \<forall>e \<in> set es. band_or_chop lower_limit upper_limit (snd e))
     c d (process_non_mute_segments xs vs sr lower_limit upper_limit full_audio_id c d)"
  unfolding process_non_mute_segments_def
  by (rule for_each_writes) (rule non_mute_step_writes)




section \<open>Every run\<close>












section \<open>Spans within the band and spans below it\<close>

lemma writes_keys_below:
  assumes "writes full_audio_id P c d (Some (Inr c', d'))" "keys_below full_audio_id c d"
  shows "keys_below full_audio_id c' d'"
proof -
  from assms(1) obtain es where es: "d' = assign_all es d" "well_keyed full_audio_id c es"
    "c' = c + int (length es)" by (auto elim!: writesE)
  from assign_all_fresh [OF assms(2) es(2)] es(1) have "d' = d @ es" by simp
  with keys_below_append [OF assms(2) es(2)] es(3) show ?thesis by simp
qed




section \<open>The frame of a call\<close>

lemma assign_all_length: "length d \<le> length (assign_all es d)"
proof (induction es arbitrary: d)
  case Nil
  show ?case by simp
next
  case (Cons e es)
  have "length d \<le> length (dict_set (fst e) (snd e) d)" by (rule dict_set_length)
  also have "\<dots> \<le> length (assign_all es (dict_set (fst e) (snd e) d))" by (rule Cons.IH)
  finally show ?case by simp
qed

lemma writes_frame:
  assumes "writes full_audio_id P c d (Some (r, d'))"
  shows "fst ` set d \<subseteq> fst ` set d'" "length d \<le> length d'" "\<And>c'. r = Inr c' \<Longrightarrow> c \<le> c'"
proof -
  from assms obtain es where es: "d' = assign_all es d"
    "\<And>c'. r = Inr c' \<Longrightarrow> c' = c + int (length es)" by (auto elim!: writesE)
  show "fst ` set d \<subseteq> fst ` set d'" unfolding es(1) assign_all_keys by blast
  show "length d \<le> length d'" unfolding es(1) by (rule assign_all_length)
  show "\<And>c'. r = Inr c' \<Longrightarrow> c \<le> c'" using es(2) by fastforce
qed

lemma writes_fresh_frame:
  assumes "writes full_audio_id P c d (Some (r, d'))" "keys_below full_audio_id c d"
  shows "\<exists>es. d' = d @ es \<and> (\<forall>c'. r = Inr c' \<longrightarrow> c' = c + int (length es))"
proof -
  from assms(1) obtain es where es: "d' = assign_all es d" "well_keyed full_audio_id c es"
    "\<And>c'. r = Inr c' \<Longrightarrow> c' = c + int (length es)" by (auto elim!: writesE)
  from assign_all_fresh [OF assms(2) es(2)] es(1) have "d' = d @ es" by simp
  with es(3) show ?thesis by blast
qed

lemma map_of_prefix:
  assumes "k \<in> fst ` set d"
  shows "map_of (d @ es) k = map_of d k"
proof -
  from assms have "k \<in> dom (map_of d)" by (simp add: dom_map_of_conv_image_fst)
  then show ?thesis by (auto simp: map_add_def split: option.splits)
qed

text \<open>
  C10, as the code has it. A call of \<open>process_non_mute_segments\<close> or of
  \<open>chop_long_segment_duration\<close> that returns or raises leaves every key of
  \<open>split_audio\<close> in it and makes it no shorter, and a counter it returns is not below
  the one it was given. When no key of \<open>split_audio\<close> carries a sequence number that is
  not below the counter (so it is in every state a run reaches), the call only appends
  entries: the keys present before keep their values, and a counter it returns is the
  one it was given plus the number of entries added. With an upper limit above zero
  and a sampling rate that is not zero the calls return (for the chopper, with a
  duration above the upper limit).
\<close>

theorem calls_only_add_entries:
  "(process_non_mute_segments splits vs sr lower_limit upper_limit full_audio_id c d = Some (r, d')
      \<longrightarrow> fst ` set d \<subseteq> fst ` set d' \<and> length d \<le> length d'
          \<and> (\<forall>c'. r = Inr c' \<longrightarrow> c \<le> c')
          \<and> (keys_below full_audio_id c d \<longrightarrow>
                (\<exists>es. d' = d @ es \<and> (\<forall>c'. r = Inr c' \<longrightarrow> c' = c + int (length es)))
              \<and> (\<forall>k \<in> fst ` set d. map_of d' k = map_of d k)))
   \<and> (chop_long_segment_duration D upper_limit vs split_start sr full_audio_id d c = Some (r, d')
      \<longrightarrow> fst ` set d \<subseteq> fst ` set d' \<and> length d \<le> length d'
          \<and> (\<forall>c'. r = Inr c' \<longrightarrow> c \<le> c')
          \<and> (keys_below full_audio_id c d \<longrightarrow>
                (\<exists>es. d' = d @ es \<and> (\<forall>c'. r = Inr c' \<longrightarrow> c' = c + int (length es)))
              \<and> (\<forall>k \<in> fst ` set d. map_of d' k = map_of d k)))
   \<and> (0 < upper_limit \<longrightarrow> sr \<noteq> 0 \<longrightarrow>
        (\<exists>x. process_non_mute_segments splits vs sr lower_limit upper_limit full_audio_id c d
               = Some (Inr (fst x), snd x)))
   \<and> (0 < upper_limit \<longrightarrow> upper_limit < D \<longrightarrow> sr \<noteq> 0 \<longrightarrow>
        (\<exists>x. chop_long_segment_duration D upper_limit vs split_start sr full_audio_id d c
               = Some (Inr (fst x), snd x)))"
proof (intro conjI impI)
  assume run: "process_non_mute_segments splits vs sr lower_limit upper_limit full_audio_id c d
      = Some (r, d')"
  note w = process_writes [of full_audio_id lower_limit upper_limit c d splits vs sr,
      unfolded run]
  show "fst ` set d \<subseteq> fst ` set d'" by (rule writes_frame(1) [OF w])
  show "length d \<le> length d'" by (rule writes_frame(2) [OF w])
  show "\<forall>c'. r = Inr c' \<longrightarrow> c \<le> c'"
  proof (intro allI impI)
    fix c' assume "r = Inr c'"
    then show "c \<le> c'" by (rule writes_frame(3) [OF w])
  qed
  assume k: "keys_below full_audio_id c d"
  show e: "\<exists>es. d' = d @ es \<and> (\<forall>c'. r = Inr c' \<longrightarrow> c' = c + int (length es))"
    by (rule writes_fresh_frame [OF w k])
  then obtain es where es: "d' = d @ es" by blast
  show "\<forall>k \<in> fst ` set d. map_of d' k = map_of d k"
  proof
    fix k assume "k \<in> fst ` set d"
    then show "map_of d' k = map_of d k" unfolding es by (rule map_of_prefix)
  qed
next
  assume run: "chop_long_segment_duration D upper_limit vs split_start sr full_audio_id d c
      = Some (r, d')"
  note w = chop_writes_any [of full_audio_id c d D upper_limit vs split_start sr, unfolded run]
  show "fst ` set d \<subseteq> fst ` set d'" by (rule writes_frame(1) [OF w])
  show "length d \<le> length d'" by (rule writes_frame(2) [OF w])
  show "\<forall>c'. r = Inr c' \<longrightarrow> c \<le> c'"
  proof (intro allI impI)
    fix c' assume "r = Inr c'"
    then show "c \<le> c'" by (rule writes_frame(3) [OF w])
  qed
  assume k: "keys_below full_audio_id c d"
  show e: "\<exists>es. d' = d @ es \<and> (\<forall>c'. r = Inr c' \<longrightarrow> c' = c + int (length es))"
    by (rule writes_fresh_frame [OF w k])
  then obtain es where es: "d' = d @ es" by blast
  show "\<forall>k \<in> fst ` set d. map_of d' k = map_of d k"
  proof
    fix k assume "k \<in> fst ` set d"
    then show "map_of d' k = map_of d k" unfolding es by (rule map_of_prefix)
  qed
next
  assume a: "0 < upper_limit" "sr \<noteq> 0"
  from process_emits_all [OF a, of full_audio_id lower_limit c d splits vs]
  obtain es where
    "process_non_mute_segments splits vs sr lower_limit upper_limit full_audio_id c d =
       Some (Inr (c + int (length es)), assign_all es d)" by (rule emitsE)
  then show "\<exists>x. process_non_mute_segments splits vs sr lower_limit upper_limit full_audio_id c d
               = Some (Inr (fst x), snd x)"
    by (intro exI [of _ "(c + int (length es), assign_all es d)"]) simp
next
  assume a: "0 < upper_limit" "upper_limit < D" "sr \<noteq> 0"
  show "\<exists>x. chop_long_segment_duration D upper_limit vs split_start sr full_audio_id d c
               = Some (Inr (fst x), snd x)"
    unfolding chop_long_segment_duration_halvings [OF a]
    by (intro exI [of _ "(c + 2 ^ halvings upper_limit D, assign_all
          (map (chop_entry (D / 2 ^ halvings upper_limit D) (span_start vs + split_start / sr)
             full_audio_id c) [0..<2 ^ halvings upper_limit D]) d)"]) simp
qed

lemma one_entry_keys_below:
  "keys_below ''a'' 2 [(''a_0001_0_to_5000'', \<lparr>slice_start = 0, slice_end = 5000\<rparr>)]"
proof -
  have "well_keyed ''a'' 1 [(''a_0001_0_to_5000'', \<lparr>slice_start = 0, slice_end = 5000\<rparr>)]"
    by (simp add: key_eval)
  from well_keyed_keys_below [OF this] show ?thesis by simp
qed

lemma process_after_one_entry:
  "process_non_mute_segments [(0, 144000)] \<lparr>span_start = 10, span_end = 40\<rparr> 16000 2 8 ''a'' 2
     [(''a_0001_0_to_5000'', \<lparr>slice_start = 0, slice_end = 5000\<rparr>)] =
   Some (Inr 4,
     [(''a_0001_0_to_5000'', \<lparr>slice_start = 0, slice_end = 5000\<rparr>),
      (''a_0002_10000_to_14500'', \<lparr>slice_start = 10000, slice_end = 14500\<rparr>),
      (''a_0003_14500_to_19000'', \<lparr>slice_start = 14500, slice_end = 19000\<rparr>)])"
  by (simp add: run_eval key_eval)

lemma chop_after_one_entry:
  "chop_long_segment_duration 9 8 \<lparr>span_start = 10, span_end = 40\<rparr> 0 16000 ''a''
     [(''a_0001_0_to_5000'', \<lparr>slice_start = 0, slice_end = 5000\<rparr>)] 2 =
   Some (Inr 4,
     [(''a_0001_0_to_5000'', \<lparr>slice_start = 0, slice_end = 5000\<rparr>),
      (''a_0002_10000_to_14500'', \<lparr>slice_start = 10000, slice_end = 14500\<rparr>),
      (''a_0003_14500_to_19000'', \<lparr>slice_start = 14500, slice_end = 19000\<rparr>)])"
  by (simp add: run_eval key_eval)

theorem calls_only_add_entries_witness:
  "process_non_mute_segments [(0, 144000)] \<lparr>span_start = 10, span_end = 40\<rparr> 16000 2 8 ''a'' 2
     [(''a_0001_0_to_5000'', \<lparr>slice_start = 0, slice_end = 5000\<rparr>)] =
   Some (Inr 4,
     [(''a_0001_0_to_5000'', \<lparr>slice_start = 0, slice_end = 5000\<rparr>),
      (''a_0002_10000_to_14500'', \<lparr>slice_start = 10000, slice_end = 14500\<rparr>),
      (''a_0003_14500_to_19000'', \<lparr>slice_start = 14500, slice_end = 19000\<rparr>)])
   \<and> chop_long_segment_duration 9 8 \<lparr>span_start = 10, span_end = 40\<rparr> 0 16000 ''a''
     [(''a_0001_0_to_5000'', \<lparr>slice_start = 0, slice_end = 5000\<rparr>)] 2 =
   Some (Inr 4,
     [(''a_0001_0_to_5000'', \<lparr>slice_start = 0, slice_end = 5000\<rparr>),
      (''a_0002_10000_to_14500'', \<lparr>slice_start = 10000, slice_end = 14500\<rparr>),
      (''a_0003_14500_to_19000'', \<lparr>slice_start = 14500, slice_end = 19000\<rparr>)])
   \<and> keys_below ''a'' 2 [(''a_0001_0_to_5000'', \<lparr>slice_start = 0, slice_end = 5000\<rparr>)]
   \<and> (\<exists>es. [(''a_0001_0_to_5000'', \<lparr>slice_start = 0, slice_end = 5000\<rparr>),
             (''a_0002_10000_to_14500'', \<lparr>slice_start = 10000, slice_end = 14500\<rparr>),
             (''a_0003_14500_to_19000'', \<lparr>slice_start = 14500, slice_end = 19000\<rparr>)]
            = [(''a_0001_0_to_5000'', \<lparr>slice_start = 0, slice_end = 5000\<rparr>)] @ es
          \<and> (4::int) = 2 + int (length es))
   \<and> map_of [(''a_0001_0_to_5000'', \<lparr>slice_start = 0, slice_end = 5000\<rparr>),
             (''a_0002_10000_to_14500'', \<lparr>slice_start = 10000, slice_end = 14500\<rparr>),
             (''a_0003_14500_to_19000'', \<lparr>slice_start = 14500, slice_end = 19000\<rparr>)]
        ''a_0001_0_to_5000''
      = map_of [(''a_0001_0_to_5000'', \<lparr>slice_start = 0, slice_end = 5000\<rparr>)]
          ''a_0001_0_to_5000''
   \<and> (0::rat) < 8 \<and> (8::rat) < 9 \<and> (16000::rat) \<noteq> 0
   \<and> (\<exists>x. process_non_mute_segments [(0, 144000)] \<lparr>span_start = 10, span_end = 40\<rparr> 16000 2 8
            ''a'' 2 [(''a_0001_0_to_5000'', \<lparr>slice_start = 0, slice_end = 5000\<rparr>)]
          = Some (Inr (fst x), snd x))
   \<and> (\<exists>x. chop_long_segment_duration 9 8 \<lparr>span_start = 10, span_end = 40\<rparr> 0 16000 ''a''
            [(''a_0001_0_to_5000'', \<lparr>slice_start = 0, slice_end = 5000\<rparr>)] 2
          = Some (Inr (fst x), snd x))"
proof -
  note t = calls_only_add_entries [where splits = "[(0, 144000)]"
      and vs = "\<lparr>span_start = 10, span_end = 40\<rparr>" and sr = 16000 and lower_limit = 2
      and upper_limit = 8 and full_audio_id = "''a''" and c = 2
      and d = "[(''a_0001_0_to_5000'', \<lparr>slice_start = 0, slice_end = 5000\<rparr>)]"
      and r = "Inr 4"
      and d' = "[(''a_0001_0_to_5000'', \<lparr>slice_start = 0, slice_end = 5000\<rparr>),
        (''a_0002_10000_to_14500'', \<lparr>slice_start = 10000, slice_end = 14500\<rparr>),
        (''a_0003_14500_to_19000'', \<lparr>slice_start = 14500, slice_end = 19000\<rparr>)]"
      and D = 9 and split_start = 0]
  note p = process_after_one_entry
  note q = chop_after_one_entry
  note k = one_entry_keys_below
  have a: "(0::rat) < 8" and b: "(8::rat) < 9" and c: "(16000::rat) \<noteq> 0" by simp_all
  note tp = t [THEN conjunct1, THEN mp, OF p]
  note tpk = tp [THEN conjunct2, THEN conjunct2, THEN conjunct2, THEN mp, OF k]
  from tpk [THEN conjunct1] obtain es where
    es1: "[(''a_0001_0_to_5000'', \<lparr>slice_start = 0, slice_end = 5000\<rparr>),
           (''a_0002_10000_to_14500'', \<lparr>slice_start = 10000, slice_end = 14500\<rparr>),
           (''a_0003_14500_to_19000'', \<lparr>slice_start = 14500, slice_end = 19000\<rparr>)]
          = [(''a_0001_0_to_5000'', \<lparr>slice_start = 0, slice_end = 5000\<rparr>)] @ es"
    and es2: "\<forall>c'. (Inr 4 :: error + int) = Inr c' \<longrightarrow> c' = 2 + int (length es)"
    by blast
  from es2 have "(4::int) = 2 + int (length es)" by simp
  with es1 have e: "\<exists>es. [(''a_0001_0_to_5000'', \<lparr>slice_start = 0, slice_end = 5000\<rparr>),
             (''a_0002_10000_to_14500'', \<lparr>slice_start = 10000, slice_end = 14500\<rparr>),
             (''a_0003_14500_to_19000'', \<lparr>slice_start = 14500, slice_end = 19000\<rparr>)]
            = [(''a_0001_0_to_5000'', \<lparr>slice_start = 0, slice_end = 5000\<rparr>)] @ es
          \<and> (4::int) = 2 + int (length es)"
    by (intro exI [of _ es] conjI)
  note tq = t [THEN conjunct2, THEN conjunct1, THEN mp, OF q]
  note tqk = tq [THEN conjunct2, THEN conjunct2, THEN conjunct2, THEN mp, OF k]
  have "''a_0001_0_to_5000''
      \<in> fst ` set [(''a_0001_0_to_5000'', \<lparr>slice_start = 0, slice_end = 5000\<rparr>)]" by simp
  note m = tqk [THEN conjunct2, THEN bspec, OF this]
  note x = t [THEN conjunct2, THEN conjunct2, THEN conjunct1, THEN mp, THEN mp, OF a c]
  note y = t [THEN conjunct2, THEN conjunct2, THEN conjunct2, THEN mp, THEN mp, THEN mp, OF a b c]
  show ?thesis by (intro conjI p q k e m a b c x y)
qed

text \<open>
  C10 as stated fails for a dictionary that holds a key the call builds again: the
  chopper called with the counter 1 assigns to the key of sequence number 1 that is
  there already. The key is mapped to another slice afterwards, and the counter has
  gone up by two while one entry was added.
\<close>

theorem calls_only_add_entries_counterexample:
  "chop_long_segment_duration 9 8 \<lparr>span_start = 0, span_end = 9\<rparr> 0 16000 ''a''
     [(''a_0001_0_to_4500'', \<lparr>slice_start = 7, slice_end = 7\<rparr>)] 1 =
   Some (Inr 3, [(''a_0001_0_to_4500'', \<lparr>slice_start = 0, slice_end = 4500\<rparr>),
                 (''a_0002_4500_to_9000'', \<lparr>slice_start = 4500, slice_end = 9000\<rparr>)])
   \<and> map_of [(''a_0001_0_to_4500'', \<lparr>slice_start = 0, slice_end = 4500\<rparr>),
              (''a_0002_4500_to_9000'', \<lparr>slice_start = 4500, slice_end = 9000\<rparr>)]
        ''a_0001_0_to_4500''
      \<noteq> map_of [(''a_0001_0_to_4500'', \<lparr>slice_start = 7, slice_end = 7\<rparr>)] ''a_0001_0_to_4500''
   \<and> (3::int) \<noteq> 1 + (int (length [(''a_0001_0_to_4500'', \<lparr>slice_start = 0, slice_end = 4500\<rparr>),
                 (''a_0002_4500_to_9000'', \<lparr>slice_start = 4500, slice_end = 9000\<rparr>)])
           - int (length [(''a_0001_0_to_4500'', \<lparr>slice_start = 7, slice_end = 7\<rparr>)]))"
  by (simp add: run_eval key_eval)

section \<open>The segments of a subdivided span\<close>











section \<open>Rounding to a double\<close>

lemma pow2_pos [simp]: "0 < pow2 n"
  by (simp add: pow2_def)

lemma pow2_nonzero [simp]: "pow2 n \<noteq> 0"
  by (simp add: pow2_def)

lemma pow2_abs [simp]: "\<bar>pow2 n\<bar> = pow2 n"
  using pow2_pos [of n] by (simp only: abs_of_pos)

lemma pow2_nonneg [simp]: "0 \<le> pow2 n"
  using pow2_pos [of n] by linarith

lemma pow2_Suc: "pow2 (n + 1) = 2 * pow2 n"
proof (cases "0 \<le> n")
  case True
  then show ?thesis by (simp add: pow2_def nat_add_distrib)
next
  case False
  then have k: "nat (- n) = Suc (nat (- (n + 1)))" by linarith
  show ?thesis
  proof (cases "0 \<le> n + 1")
    case True
    with False have "n = - 1" by linarith
    then show ?thesis by (simp add: pow2_def)
  next
    case False
    then show ?thesis using k by (simp add: pow2_def)
  qed
qed

lemma pow2_pred: "pow2 (n - 1) = pow2 n / 2"
  using pow2_Suc [of "n - 1"] by simp

lemma pow2_nat: "pow2 (int k) = 2 ^ k"
  by (simp add: pow2_def)

lemma pow2_neg_nat: "pow2 (- int k) = 1 / 2 ^ k"
proof (cases k)
  case 0
  then show ?thesis by (simp add: pow2_def)
next
  case (Suc m)
  have "nat (int (Suc m)) = Suc m" by (rule nat_int)
  then show ?thesis unfolding Suc by (simp add: pow2_def del: of_nat_Suc)
qed

lemma log2_up_bounds: "1 \<le> x \<Longrightarrow> 2 ^ log2_up x \<le> x \<and> x < 2 * 2 ^ log2_up x"
proof (induction x rule: log2_up.induct)
  case (1 x)
  show ?case
  proof (cases "2 \<le> x")
    case True
    then have "1 \<le> x / 2" by simp
    from "1.IH" [OF True this] True show ?thesis
      by (subst (1 2) log2_up.simps) simp
  next
    case False
    with "1.prems" show ?thesis by (subst (1 2) log2_up.simps) simp
  qed
qed

lemma log2_down_bounds:
  "0 < x \<Longrightarrow> x < 1 \<Longrightarrow> 1 / 2 ^ log2_down x \<le> x \<and> x < 2 / 2 ^ log2_down x"
proof (induction x rule: log2_down.induct)
  case (1 x)
  have c: "0 < x \<and> x < 1" using "1.prems" by simp
  show ?case
  proof (cases "2 * x < 1")
    case True
    have "0 < 2 * x" using c by simp
    from "1.IH" [OF c this True] c show ?thesis
      by (subst (1 2) log2_down.simps) (simp add: field_simps)
  next
    case False
    then have z: "log2_down (2 * x) = 0" by (subst log2_down.simps) simp
    show ?thesis using c False by (subst (1 2) log2_down.simps) (simp add: z)
  qed
qed

lemma expo_bounds:
  assumes "0 < x"
  shows "pow2 (expo x) \<le> x" "x < pow2 (expo x + 1)"
proof -
  have "pow2 (expo x) \<le> x \<and> x < 2 * pow2 (expo x)"
  proof (cases "1 \<le> x")
    case True
    then show ?thesis using log2_up_bounds [OF True] by (simp add: expo_def pow2_nat)
  next
    case False
    then have "x < 1" by simp
    from log2_down_bounds [OF assms this] False show ?thesis
      by (simp add: expo_def pow2_neg_nat)
  qed
  then show "pow2 (expo x) \<le> x" "x < pow2 (expo x + 1)" by (simp_all add: pow2_Suc)
qed

lemma pow2_add_nat: "pow2 (n + int k) = 2 ^ k * pow2 n"
proof (induction k)
  case 0
  show ?case by simp
next
  case (Suc k)
  have "pow2 (n + int (Suc k)) = pow2 ((n + int k) + 1)" by (simp add: ac_simps)
  also have "\<dots> = 2 * pow2 (n + int k)" by (rule pow2_Suc)
  finally show ?case using Suc.IH by simp
qed

lemma pow2_diff_nat: "pow2 (n - int k) = pow2 n / 2 ^ k"
  using pow2_add_nat [of "n - int k" k] by simp

lemma pow2_mono: "a \<le> b \<Longrightarrow> pow2 a \<le> pow2 b"
proof -
  assume "a \<le> b"
  then obtain k where b: "b = a + int k" by (metis zle_iff_zadd)
  have "(1::rat) \<le> 2 ^ k" by simp
  moreover have "0 \<le> pow2 a" using pow2_pos [of a] by linarith
  ultimately have "1 * pow2 a \<le> 2 ^ k * pow2 a" by (rule mult_right_mono)
  then show ?thesis unfolding b pow2_add_nat by simp
qed

lemma expo_unique:
  assumes "pow2 e \<le> x" "x < pow2 (e + 1)"
  shows "expo x = e"
proof -
  have x: "0 < x" using assms(1) pow2_pos [of e] by linarith
  note b = expo_bounds [OF x]
  show ?thesis
  proof (rule ccontr)
    assume "expo x \<noteq> e"
    then consider "e + 1 \<le> expo x" | "expo x + 1 \<le> e" by linarith
    then show False
    proof cases
      case 1
      from pow2_mono [OF this] b(1) assms(2) show False by linarith
    next
      case 2
      from pow2_mono [OF this] b(2) assms(1) show False by linarith
    qed
  qed
qed

lemma round_half_even_error: "\<bar>of_int (round_half_even q) - q\<bar> \<le> 1 / 2"
proof -
  have "of_int \<lfloor>q\<rfloor> \<le> q" "q < of_int \<lfloor>q\<rfloor> + 1" by linarith+
  then show ?thesis by (auto simp: round_half_even_def Let_def)
qed

lemma round_half_even_unique:
  assumes "\<bar>of_int n - q\<bar> < 1 / 2"
  shows "round_half_even q = n"
proof -
  have f: "of_int \<lfloor>q\<rfloor> \<le> q" "q < of_int \<lfloor>q\<rfloor> + 1" by linarith+
  from assms have n: "q - 1 / 2 < of_int n" "of_int n < q + 1 / 2" by linarith+
  have "(of_int \<lfloor>q\<rfloor> :: rat) - 1 < of_int n" "(of_int n :: rat) < of_int \<lfloor>q\<rfloor> + 2"
    using f n by linarith+
  then have "of_int (\<lfloor>q\<rfloor> - 1) < (of_int n :: rat)" "(of_int n :: rat) < of_int (\<lfloor>q\<rfloor> + 2)"
    by simp_all
  then have "\<lfloor>q\<rfloor> - 1 < n" "n < \<lfloor>q\<rfloor> + 2" by (simp_all only: of_int_less_iff)
  then consider "n = \<lfloor>q\<rfloor>" | "n = \<lfloor>q\<rfloor> + 1" by linarith
  then show ?thesis
  proof cases
    case 1
    then have "q - of_int \<lfloor>q\<rfloor> < 1 / 2" using n by simp
    then show ?thesis using 1 by (simp add: round_half_even_def Let_def)
  next
    case 2
    then have "(of_int n :: rat) = of_int \<lfloor>q\<rfloor> + 1" by simp
    then have "1 / 2 < q - of_int \<lfloor>q\<rfloor>" using n by linarith
    then show ?thesis using 2 by (simp add: round_half_even_def Let_def)
  qed
qed

lemma round_half_even_tie:
  assumes "\<bar>of_int n - q\<bar> = 1 / 2" "even n"
  shows "round_half_even q = n"
proof -
  from assms(1) consider "q = of_int n + 1 / 2" | "q = of_int n - 1 / 2" by linarith
  then show ?thesis
  proof cases
    case 1
    then have "\<lfloor>q\<rfloor> = n" by (simp add: floor_eq_iff)
    then show ?thesis using 1 assms(2) by (simp add: round_half_even_def Let_def)
  next
    case 2
    then have f: "\<lfloor>q\<rfloor> = n - 1" by (simp add: floor_eq_iff)
    have "odd (n - 1)" using assms(2) by simp
    then show ?thesis using 2 f by (simp add: round_half_even_def Let_def)
  qed
qed

lemma binary64_eqI:
  assumes "x \<noteq> 0" "pow2 e \<le> \<bar>x\<bar>" "\<bar>x\<bar> < pow2 (e + 1)"
    "\<bar>of_int n - x / pow2 (e - 52)\<bar> < 1 / 2
     \<or> \<bar>of_int n - x / pow2 (e - 52)\<bar> = 1 / 2 \<and> even n"
  shows "binary64 x = of_int n * pow2 (e - 52)"
proof -
  have e: "expo \<bar>x\<bar> = e" by (rule expo_unique [OF assms(2,3)])
  have "round_half_even (x / pow2 (e - 52)) = n"
    using assms(4) round_half_even_unique [of n "x / pow2 (e - 52)"]
      round_half_even_tie [of n "x / pow2 (e - 52)"] by blast
  then show ?thesis using assms(1) e by (simp add: binary64_def Let_def)
qed

lemma binary64_error:
  "\<bar>binary64 x - x\<bar> \<le> \<bar>x\<bar> / 2 ^ 53"
proof (cases "x = 0")
  case True
  then show ?thesis by (simp add: binary64_def)
next
  case False
  let ?e = "expo \<bar>x\<bar>"
  let ?ulp = "pow2 (?e - 52)"
  let ?q = "x / ?ulp"
  have pos: "0 < \<bar>x\<bar>" using False by simp
  have ulp: "0 < ?ulp" by simp
  have ne: "?ulp \<noteq> 0" by simp
  have "binary64 x - x = (of_int (round_half_even ?q) - ?q) * ?ulp"
    using False ne by (simp add: binary64_def Let_def left_diff_distrib)
  then have "\<bar>binary64 x - x\<bar> = \<bar>of_int (round_half_even ?q) - ?q\<bar> * ?ulp"
    using ulp by (simp add: abs_mult)
  also have "\<dots> \<le> 1 / 2 * ?ulp"
    by (rule mult_right_mono [OF round_half_even_error]) simp
  also have "1 / 2 * ?ulp = pow2 ?e / 2 ^ 53"
    using pow2_diff_nat [of ?e 52] by simp
  also have "\<dots> \<le> \<bar>x\<bar> / 2 ^ 53"
    using expo_bounds(1) [OF pos] by (simp add: divide_right_mono)
  finally show ?thesis .
qed



section \<open>The unit converters in floating point\<close>

lemma frame_to_sec_fl_Inr [simp]:
  "sampling_rate \<noteq> 0 \<Longrightarrow>
     frame_to_sec_fl rnd frame sampling_rate = Inr (rnd (frame / sampling_rate))"
  by (simp add: frame_to_sec_fl_def)

lemma frame_to_sec_fl_zero [simp]: "frame_to_sec_fl rnd frame 0 = Inl ZeroDivisionError"
  by (simp add: frame_to_sec_fl_def)

lemma rounded_bound:
  fixes x u :: rat
  assumes "\<bar>y - x\<bar> \<le> \<bar>x\<bar> * u"
  shows "\<bar>y\<bar> \<le> \<bar>x\<bar> * (1 + u)"
proof -
  have "\<bar>y\<bar> \<le> \<bar>x\<bar> + \<bar>y - x\<bar>" by linarith
  also have "\<dots> \<le> \<bar>x\<bar> + \<bar>x\<bar> * u" using assms by simp
  finally show ?thesis by (simp add: algebra_simps)
qed

lemma times_then_divide:
  fixes s sr u :: rat
  assumes r: "\<And>x. \<bar>rnd x - x\<bar> \<le> \<bar>x\<bar> * u" and u: "0 \<le> u" and sr: "sr \<noteq> 0"
  shows "\<bar>rnd (rnd (s * sr) / sr) - s\<bar> \<le> \<bar>s\<bar> * (2 * u + u * u)"
proof -
  let ?a = "rnd (s * sr)"
  have a: "\<bar>?a - s * sr\<bar> \<le> \<bar>s * sr\<bar> * u" by (rule r)
  have a': "\<bar>?a\<bar> \<le> \<bar>s * sr\<bar> * (1 + u)" by (rule rounded_bound [OF a])
  have q: "\<bar>?a / sr\<bar> \<le> \<bar>s\<bar> * (1 + u)"
  proof -
    have "\<bar>?a / sr\<bar> = \<bar>?a\<bar> / \<bar>sr\<bar>" by (simp add: abs_divide)
    also have "\<dots> \<le> (\<bar>s * sr\<bar> * (1 + u)) / \<bar>sr\<bar>"
      using a' by (simp add: divide_right_mono)
    also have "\<dots> = \<bar>s\<bar> * (1 + u)" using sr by (simp add: abs_mult)
    finally show ?thesis .
  qed
  have e1: "\<bar>rnd (?a / sr) - ?a / sr\<bar> \<le> \<bar>s\<bar> * (1 + u) * u"
  proof -
    have "\<bar>rnd (?a / sr) - ?a / sr\<bar> \<le> \<bar>?a / sr\<bar> * u" by (rule r)
    also have "\<dots> \<le> \<bar>s\<bar> * (1 + u) * u" by (rule mult_right_mono [OF q u])
    finally show ?thesis .
  qed
  have e2: "\<bar>?a / sr - s\<bar> \<le> \<bar>s\<bar> * u"
  proof -
    have "?a / sr - s = (?a - s * sr) / sr" using sr by (simp add: field_simps)
    then have "\<bar>?a / sr - s\<bar> = \<bar>?a - s * sr\<bar> / \<bar>sr\<bar>" by (simp add: abs_divide)
    also have "\<dots> \<le> (\<bar>s * sr\<bar> * u) / \<bar>sr\<bar>" using a by (simp add: divide_right_mono)
    also have "\<dots> = \<bar>s\<bar> * u" using sr by (simp add: abs_mult)
    finally show ?thesis .
  qed
  have "\<bar>rnd (?a / sr) - s\<bar> \<le> \<bar>rnd (?a / sr) - ?a / sr\<bar> + \<bar>?a / sr - s\<bar>" by linarith
  also have "\<dots> \<le> \<bar>s\<bar> * (1 + u) * u + \<bar>s\<bar> * u" using e1 e2 by linarith
  also have "\<dots> = \<bar>s\<bar> * (2 * u + u * u)" by (simp add: algebra_simps)
  finally show ?thesis .
qed

lemma divide_then_times:
  fixes f sr u :: rat
  assumes r: "\<And>x. \<bar>rnd x - x\<bar> \<le> \<bar>x\<bar> * u" and u: "0 \<le> u" and sr: "sr \<noteq> 0"
  shows "\<bar>rnd (rnd (f / sr) * sr) - f\<bar> \<le> \<bar>f\<bar> * (2 * u + u * u)"
proof -
  have "\<bar>rnd (rnd (f * (1 / sr)) / (1 / sr)) - f\<bar> \<le> \<bar>f\<bar> * (2 * u + u * u)"
    by (rule times_then_divide [OF r u]) (use sr in simp)
  then show ?thesis by simp
qed

lemma binary64_relative: "\<bar>binary64 x - x\<bar> \<le> \<bar>x\<bar> * (1 / 2 ^ 53)"
  using binary64_error [of x] by simp


section \<open>What a call writes in floating point\<close>

lemma span_entry_fl_fresh:
  assumes "keys_below full_audio_id c d"
  shows "fst (span_entry_fl rnd full_audio_id c a b) \<notin> fst ` set d"
    "dict_set (fst (span_entry_fl rnd full_audio_id c a b))
        (snd (span_entry_fl rnd full_audio_id c a b)) d =
       d @ [span_entry_fl rnd full_audio_id c a b]"
  using keys_below_fresh [OF assms] dict_set_keys_below [OF assms]
  by (simp_all add: span_entry_fl_def)

lemma chop_loop_fl_writes:
  "writes full_audio_id (\<lambda>es. \<forall>e \<in> set es. True) c d
     (Some (chop_loop_fl rnd cl vs ss sr full_audio_id ixs c d))"
proof (cases "sr = 0")
  case True
  show ?thesis
  proof (cases ixs)
    case Nil
    then show ?thesis by (auto intro: writesI [where es = "[]"])
  next
    case (Cons i rest)
    then show ?thesis using True by (auto intro: writesI [where es = "[]"])
  qed
next
  case False
  show ?thesis
  proof (induction ixs arbitrary: c d)
    case Nil
    show ?case by (auto intro: writesI [where es = "[]"])
  next
    case (Cons i rest)
    let ?s = "sec_to_millis_fl rnd (rnd (rnd (span_start vs + rnd (ss / sr)) + rnd (cl * of_nat i)))"
    let ?e = "sec_to_millis_fl rnd
        (rnd (rnd (span_start vs + rnd (ss / sr)) + rnd (cl * (of_nat i + 1))))"
    let ?k = "segment_key full_audio_id c ?s ?e"
    obtain r d' where out: "chop_loop_fl rnd cl vs ss sr full_audio_id rest (c + 1)
        (dict_set ?k (slice_ms ?s ?e) d) = (r, d')"
      by (cases "chop_loop_fl rnd cl vs ss sr full_audio_id rest (c + 1)
        (dict_set ?k (slice_ms ?s ?e) d)")
    from Cons.IH [of "c + 1" "dict_set ?k (slice_ms ?s ?e) d"] out
    obtain es where es: "d' = assign_all es (dict_set ?k (slice_ms ?s ?e) d)"
      "well_keyed full_audio_id (c + 1) es"
      "\<And>c'. r = Inr c' \<Longrightarrow> c' = c + 1 + int (length es)"
      by (auto elim!: writesE)
    have step: "chop_loop_fl rnd cl vs ss sr full_audio_id (i # rest) c d = (r, d')"
      using False out by (simp add: Let_def)
    show ?case unfolding step
    proof (rule writesI [where es = "(?k, slice_ms ?s ?e) # es"])
      show "d' = assign_all ((?k, slice_ms ?s ?e) # es) d" using es(1) by simp
      show "well_keyed full_audio_id c ((?k, slice_ms ?s ?e) # es)"
        using es(2) by (simp add: slice_ms_def)
      show "\<forall>e \<in> set ((?k, slice_ms ?s ?e) # es). True" by simp
      show "\<And>c'. r = Inr c' \<Longrightarrow> c' = c + int (length ((?k, slice_ms ?s ?e) # es))"
        using es(3) by simp
    qed
  qed
qed

lemma chop_fl_writes:
  "writes full_audio_id (\<lambda>es. \<forall>e \<in> set es. True) c d
     (chop_long_segment_duration_fl rnd D upper_limit vs ss sr full_audio_id d c)"
proof (cases "halve_loop_fl rnd upper_limit (rnd (D / 2))")
  case None
  then show ?thesis by (simp add: chop_long_segment_duration_fl_def)
next
  case (Some cl)
  show ?thesis
  proof (cases "cl = 0")
    case True
    then show ?thesis using Some
      by (auto simp: chop_long_segment_duration_fl_def intro: writesI [where es = "[]"])
  next
    case False
    then show ?thesis using Some chop_loop_fl_writes
      by (simp add: chop_long_segment_duration_fl_def)
  qed
qed

lemma single_writes:
  assumes "out = Some (Inr (c + 1), dict_set (segment_key full_audio_id c s e) (slice_ms s e) d)"
  shows "writes full_audio_id (\<lambda>es. \<forall>e \<in> set es. True) c d out"
  by (rule emits_writes, rule single_emits [OF assms]) simp

lemma none_writes:
  assumes "out = Some (r, d)" "\<And>c'. r = Inr c' \<Longrightarrow> c' = c"
  shows "writes full_audio_id (\<lambda>es. \<forall>e \<in> set es. True) c d out"
  unfolding assms(1) by (rule writesI [where es = "[]"]) (use assms(2) in simp_all)

lemma non_mute_step_fl_writes:
  "writes full_audio_id (\<lambda>es. \<forall>e \<in> set es. True) c d
     (non_mute_step_fl rnd vs sr lower_limit upper_limit full_audio_id x c d)"
proof (cases "sr = 0")
  case True
  then show ?thesis by (auto simp: non_mute_step_fl_def intro: writesI [where es = "[]"])
next
  case False
  let ?D = "rnd (rnd (span_start vs + rnd (snd x / sr)) - rnd (span_start vs + rnd (fst x / sr)))"
  consider (band) "lower_limit \<le> ?D" "?D \<le> upper_limit"
    | (long) "\<not> (lower_limit \<le> ?D \<and> ?D \<le> upper_limit)" "upper_limit < ?D"
    | (short) "\<not> (lower_limit \<le> ?D \<and> ?D \<le> upper_limit)" "\<not> upper_limit < ?D"
    by blast
  then show ?thesis
  proof cases
    case band
    show ?thesis
      by (rule single_writes
            [where s = "sec_to_millis_fl rnd (rnd (span_start vs + rnd (fst x / sr)))"
               and e = "sec_to_millis_fl rnd (rnd (span_start vs + rnd (snd x / sr)))"])
         (use band False in \<open>simp add: non_mute_step_fl_def Let_def\<close>)
  next
    case long
    have "non_mute_step_fl rnd vs sr lower_limit upper_limit full_audio_id x c d =
            chop_long_segment_duration_fl rnd ?D upper_limit vs (fst x) sr full_audio_id d c"
      using long False by (simp add: non_mute_step_fl_def Let_def)
    then show ?thesis using chop_fl_writes by simp
  next
    case short
    show ?thesis
      by (rule none_writes [where r = "Inr c"])
         (use short False in \<open>simp_all add: non_mute_step_fl_def Let_def\<close>)
  qed
qed

lemma process_fl_writes:
  "writes full_audio_id (\<lambda>es. \<forall>e \<in> set es. True) c d
     (process_non_mute_segments_fl rnd xs vs sr lower_limit upper_limit full_audio_id c d)"
  unfolding process_non_mute_segments_fl_def
  by (rule for_each_writes) (rule non_mute_step_fl_writes)

lemma pyannote_step_fl_writes:
  "writes full_audio_id (\<lambda>es. \<forall>e \<in> set es. True) c d
     (pyannote_step_fl rnd effects_split sr lower_limit upper_limit full_audio_id vs c d)"
proof -
  let ?D = "rnd (span_end vs - span_start vs)"
  consider (band) "lower_limit \<le> ?D" "?D \<le> upper_limit"
    | (long) "\<not> (lower_limit \<le> ?D \<and> ?D \<le> upper_limit)" "upper_limit < ?D"
    | (short) "\<not> (lower_limit \<le> ?D \<and> ?D \<le> upper_limit)" "\<not> upper_limit < ?D"
    by blast
  then show ?thesis
  proof cases
    case band
    show ?thesis
      by (rule single_writes [where s = "sec_to_millis_fl rnd (span_start vs)"
            and e = "sec_to_millis_fl rnd (span_end vs)"])
         (use band in \<open>simp add: pyannote_step_fl_def Let_def\<close>)
  next
    case long
    then show ?thesis using process_fl_writes by (simp add: pyannote_step_fl_def Let_def)
  next
    case short
    show ?thesis
      by (rule none_writes [where r = "Inr c"])
         (use short in \<open>simp_all add: pyannote_step_fl_def Let_def\<close>)
  qed
qed

lemma silero_step_fl_writes:
  "writes full_audio_id (\<lambda>es. \<forall>e \<in> set es. True) c d
     (silero_step_fl rnd effects_split lower_limit upper_limit full_audio_id ts c d)"
proof -
  let ?D = "rnd (rat_of_int (snd ts - fst ts) / 16000)"
  consider (band) "lower_limit \<le> ?D" "?D \<le> upper_limit"
    | (long) "\<not> (lower_limit \<le> ?D \<and> ?D \<le> upper_limit)" "upper_limit < ?D"
    | (short) "\<not> (lower_limit \<le> ?D \<and> ?D \<le> upper_limit)" "\<not> upper_limit < ?D"
    by blast
  then show ?thesis
  proof cases
    case band
    show ?thesis
      by (rule single_writes
            [where s = "sec_to_millis_fl rnd (rnd (of_int (fst ts) / 16000))"
               and e = "sec_to_millis_fl rnd (rnd (of_int (snd ts) / 16000))"])
         (use band in \<open>simp add: silero_step_fl_def Let_def\<close>)
  next
    case long
    then show ?thesis using process_fl_writes by (simp add: silero_step_fl_def Let_def)
  next
    case short
    show ?thesis
      by (rule none_writes [where r = "Inr c"])
         (use short in \<open>simp_all add: silero_step_fl_def Let_def\<close>)
  qed
qed

lemma pyannote_loop_fl_writes:
  "writes full_audio_id (\<lambda>es. \<forall>e \<in> set es. True) c d
     (for_each (pyannote_step_fl rnd effects_split sr lower_limit upper_limit full_audio_id)
        spans c d)"
  by (rule for_each_writes) (rule pyannote_step_fl_writes)

lemma silero_loop_fl_writes:
  "writes full_audio_id (\<lambda>es. \<forall>e \<in> set es. True) c d
     (for_each (silero_step_fl rnd effects_split lower_limit upper_limit full_audio_id)
        speech_timestamps c d)"
  by (rule for_each_writes) (rule silero_step_fl_writes)


section \<open>Exact arithmetic as a way of rounding\<close>

text \<open>
  With the identity for \<open>rnd\<close> the functions with rounding are the functions of the
  exact model.
\<close>

lemma halve_loop_fl_exact: "halve_loop_fl (\<lambda>x. x) U c = halve_loop U c"
proof -
  have a: "halve_loop_fl (\<lambda>x. x) U c = Some y" if "halve_loop U c = Some y" for y
  proof (rule halve_loop.raw_induct
      [where P = "\<lambda>U c y. halve_loop_fl (\<lambda>x. x) U c = Some y", OF _ that])
    fix f :: "rat \<Rightarrow> rat \<Rightarrow> rat option" and U c y
    assume IH: "\<And>a b y. f a b = Some y \<Longrightarrow> halve_loop_fl (\<lambda>x. x) a b = Some y"
      and eq: "(if U < c then f U (c / 2) else Some c) = Some y"
    show "halve_loop_fl (\<lambda>x. x) U c = Some y"
    proof (cases "U < c")
      case True
      with eq have "f U (c / 2) = Some y" by simp
      from IH [OF this] True show ?thesis by (subst halve_loop_fl.simps) simp
    next
      case False
      with eq show ?thesis by (subst halve_loop_fl.simps) simp
    qed
  qed
  have g: "rnd = (\<lambda>x. x) \<longrightarrow> halve_loop U c = Some y"
    if "halve_loop_fl rnd U c = Some y" for rnd y
  proof (rule halve_loop_fl.raw_induct
      [where P = "\<lambda>rnd U c y. rnd = (\<lambda>x. x) \<longrightarrow> halve_loop U c = Some y", OF _ that])
    fix f :: "(rat \<Rightarrow> rat) \<Rightarrow> rat \<Rightarrow> rat \<Rightarrow> rat option" and rnd U c y
    assume IH: "\<And>r a b y. f r a b = Some y \<Longrightarrow> r = (\<lambda>x. x) \<longrightarrow> halve_loop a b = Some y"
      and eq: "(if U < c then f rnd U (rnd (c / 2)) else Some c) = Some y"
    show "rnd = (\<lambda>x. x) \<longrightarrow> halve_loop U c = Some y"
    proof
      assume r: "rnd = (\<lambda>x. x)"
      show "halve_loop U c = Some y"
      proof (cases "U < c")
        case True
        with eq r have "f rnd U (c / 2) = Some y" by simp
        from IH [OF this] r True show ?thesis by (subst halve_loop.simps) simp
      next
        case False
        with eq show ?thesis by (subst halve_loop.simps) simp
      qed
    qed
  qed
  have b: "halve_loop U c = Some y" if "halve_loop_fl (\<lambda>x. x) U c = Some y" for y
    using g [OF that] by simp
  show ?thesis
  proof (cases "halve_loop U c")
    case None
    then show ?thesis using b by (cases "halve_loop_fl (\<lambda>x. x) U c") auto
  next
    case (Some y)
    then show ?thesis using a by simp
  qed
qed

lemma frame_to_sec_fl_exact: "frame_to_sec_fl (\<lambda>x. x) f sr = frame_to_sec f sr"
  by (simp add: frame_to_sec_fl_def frame_to_sec_def)

lemma sec_to_millis_fl_exact: "sec_to_millis_fl (\<lambda>x. x) s = sec_to_millis s"
  by (simp add: sec_to_millis_fl_def sec_to_millis_def)

lemma sec_to_frame_fl_exact: "sec_to_frame_fl (\<lambda>x. x) s sr = sec_to_frame s sr"
  by (simp add: sec_to_frame_fl_def sec_to_frame_def)

lemma chop_loop_fl_exact:
  "chop_loop_fl (\<lambda>x. x) cl vs ss sr full_audio_id ixs c d =
     chop_loop cl vs ss sr full_audio_id ixs c d"
  by (induction ixs arbitrary: c d)
     (simp_all add: frame_to_sec_fl_exact sec_to_millis_fl_exact Let_def split: sum.splits)

lemma chop_long_segment_duration_fl_exact:
  "chop_long_segment_duration_fl (\<lambda>x. x) D upper_limit vs ss sr full_audio_id d c =
     chop_long_segment_duration D upper_limit vs ss sr full_audio_id d c"
  by (simp add: chop_long_segment_duration_fl_def chop_long_segment_duration_def
        halve_loop_fl_exact chop_loop_fl_exact split: option.splits)

lemma non_mute_step_fl_exact:
  "non_mute_step_fl (\<lambda>x. x) vs sr lower_limit upper_limit full_audio_id x c d =
     non_mute_step vs sr lower_limit upper_limit full_audio_id x c d"
  by (simp add: non_mute_step_fl_def non_mute_step_def frame_to_sec_fl_exact
        sec_to_millis_fl_exact chop_long_segment_duration_fl_exact Let_def split: sum.splits)

lemma process_non_mute_segments_fl_exact:
  "process_non_mute_segments_fl (\<lambda>x. x) xs vs sr lower_limit upper_limit full_audio_id c d =
     process_non_mute_segments xs vs sr lower_limit upper_limit full_audio_id c d"
proof -
  have "non_mute_step_fl (\<lambda>x. x) vs sr lower_limit upper_limit full_audio_id =
          non_mute_step vs sr lower_limit upper_limit full_audio_id"
    by (intro ext) (rule non_mute_step_fl_exact)
  then show ?thesis
    by (simp add: process_non_mute_segments_fl_def process_non_mute_segments_def)
qed

lemma pyannote_step_fl_exact:
  "pyannote_step_fl (\<lambda>x. x) effects_split sr lower_limit upper_limit full_audio_id vs c d =
     pyannote_step effects_split sr lower_limit upper_limit full_audio_id vs c d"
  by (simp add: pyannote_step_fl_def pyannote_step_def sec_to_millis_fl_exact
        sec_to_frame_fl_exact process_non_mute_segments_fl_exact Let_def)

lemma silero_step_fl_exact:
  "silero_step_fl (\<lambda>x. x) effects_split lower_limit upper_limit full_audio_id ts c d =
     silero_step effects_split lower_limit upper_limit full_audio_id ts c d"
  by (simp add: silero_step_fl_def silero_step_def sec_to_millis_fl_exact
        process_non_mute_segments_fl_exact Let_def)

section \<open>Evaluating doubles\<close>

lemma binary64_zero: "binary64 0 = 0"
  by (simp add: binary64_def)

lemma binary64_at_1: "binary64 (1001 / 16000) = 2254051613498933 / 36028797018963968"
  by (rule binary64_eqI [where e = "- 4" and n = "4508103226997866", THEN trans])
     (simp_all add: pow2_def)

lemma binary64_at_2: "binary64 (281756451687366625 / 281474976710656) = 8804889115230207 / 8796093022208"
  by (rule binary64_eqI [where e = "9" and n = "8804889115230207", THEN trans])
     (simp_all add: pow2_def)

lemma binary64_at_3: "binary64 (1 / 10) = 3602879701896397 / 36028797018963968"
  by (rule binary64_eqI [where e = "- 4" and n = "7205759403792794", THEN trans])
     (simp_all add: pow2_def)

lemma binary64_at_4: "binary64 (10808639105689191 / 36028797018963968) = 1351079888211149 / 4503599627370496"
  by (rule binary64_eqI [where e = "- 2" and n = "5404319552844596", THEN trans])
     (simp_all add: pow2_def)

lemma binary64_at_5: "binary64 (1351079888211149 / 13510798882111488) = 7205759403792795 / 72057594037927936"
  by (rule binary64_eqI [where e = "- 4" and n = "7205759403792795", THEN trans])
     (simp_all add: pow2_def)

lemma binary64_at_6: "binary64 (1500) = 1500"
  by (rule binary64_eqI [where e = "10" and n = "6597069766656000", THEN trans])
     (simp_all add: pow2_def)

lemma binary64_at_7: "binary64 (24000) = 24000"
  by (rule binary64_eqI [where e = "14" and n = "6597069766656000", THEN trans])
     (simp_all add: pow2_def)

lemma binary64_at_8: "binary64 (3 / 2) = 3 / 2"
  by (rule binary64_eqI [where e = "0" and n = "6755399441055744", THEN trans])
     (simp_all add: pow2_def)

lemma binary64_at_9: "binary64 (5000) = 5000"
  by (rule binary64_eqI [where e = "12" and n = "5497558138880000", THEN trans])
     (simp_all add: pow2_def)

lemma binary64_at_10: "binary64 (5) = 5"
  by (rule binary64_eqI [where e = "2" and n = "5629499534213120", THEN trans])
     (simp_all add: pow2_def)

lemma binary64_at_11: "binary64 (1001 / 1000) = 2254051613498933 / 2251799813685248"
  by (rule binary64_eqI [where e = "0" and n = "4508103226997866", THEN trans])
     (simp_all add: pow2_def)

lemma binary64_at_12: "binary64 (6001 / 1000) = 6756525340962587 / 1125899906842624"
  by (rule binary64_eqI [where e = "2" and n = "6756525340962587", THEN trans])
     (simp_all add: pow2_def)

lemma binary64_at_13: "binary64 (844565667620323375 / 140737488355328) = 6001"
  by (rule binary64_eqI [where e = "12" and n = "6598169278283776", THEN trans])
     (simp_all add: pow2_def)

lemma binary64_at_14: "binary64 (10) = 10"
  by (rule binary64_eqI [where e = "3" and n = "5629499534213120", THEN trans])
     (simp_all add: pow2_def)

lemma binary64_at_15: "binary64 (10000) = 10000"
  by (rule binary64_eqI [where e = "13" and n = "5497558138880000", THEN trans])
     (simp_all add: pow2_def)

lemma binary64_at_16: "binary64 (15) = 15"
  by (rule binary64_eqI [where e = "3" and n = "8444249301319680", THEN trans])
     (simp_all add: pow2_def)

lemma binary64_at_17: "binary64 (15000) = 15000"
  by (rule binary64_eqI [where e = "13" and n = "8246337208320000", THEN trans])
     (simp_all add: pow2_def)

lemma binary64_at_18: "binary64 (1 / 500) = 1152921504606847 / 576460752303423488"
  by (rule binary64_eqI [where e = "- 9" and n = "4611686018427388", THEN trans])
     (simp_all add: pow2_def)

lemma binary64_at_19: "binary64 (2513 / 250) = 1414693232947757 / 140737488355328"
  by (rule binary64_eqI [where e = "3" and n = "5658772931791028", THEN trans])
     (simp_all add: pow2_def)

lemma binary64_at_20: "binary64 (201 / 20) = 2828823515942093 / 281474976710656"
  by (rule binary64_eqI [where e = "3" and n = "5657647031884186", THEN trans])
     (simp_all add: pow2_def)

lemma binary64_at_21: "binary64 (2) = 2"
  by (rule binary64_eqI [where e = "1" and n = "4503599627370496", THEN trans])
     (simp_all add: pow2_def)

lemma binary64_at_22: "binary64 (1152921504606847 / 576460752303423488) = 1152921504606847 / 576460752303423488"
  by (rule binary64_eqI [where e = "- 9" and n = "4611686018427388", THEN trans])
     (simp_all add: pow2_def)

lemma binary64_at_23: "binary64 (144115188075855875 / 72057594037927936) = 2"
  by (rule binary64_eqI [where e = "1" and n = "4503599627370496", THEN trans])
     (simp_all add: pow2_def)

lemma binary64_at_24: "binary64 (1154074426111453823 / 576460752303423488) = 2254051613498933 / 1125899906842624"
  by (rule binary64_eqI [where e = "1" and n = "4508103226997866", THEN trans])
     (simp_all add: pow2_def)

lemma binary64_at_25: "binary64 (281756451687366625 / 140737488355328) = 8804889115230207 / 4398046511104"
  by (rule binary64_eqI [where e = "10" and n = "8804889115230207", THEN trans])
     (simp_all add: pow2_def)

lemma binary64_at_26: "binary64 (1152921504606846849 / 576460752303423488) = 9007199254740991 / 4503599627370496"
  by (rule binary64_eqI [where e = "0" and n = "9007199254740991", THEN trans])
     (simp_all add: pow2_def)

lemma binary64_at_27: "binary64 (41 / 20) = 2308094809027379 / 1125899906842624"
  by (rule binary64_eqI [where e = "1" and n = "4616189618054758", THEN trans])
     (simp_all add: pow2_def)

lemma binary64_at_28: "binary64 (1182897463726624895 / 576460752303423488) = 288793326105133 / 140737488355328"
  by (rule binary64_eqI [where e = "1" and n = "4620693217682128", THEN trans])
     (simp_all add: pow2_def)

lemma binary64_at_29: "binary64 (36099165763141625 / 17592186044416) = 4512395720392703 / 2199023255552"
  by (rule binary64_eqI [where e = "11" and n = "4512395720392703", THEN trans])
     (simp_all add: pow2_def)

lemma binary64_at_30: "binary64 (5794583482154013311 / 576460752303423488) = 5658772931791029 / 562949953421312"
  by (rule binary64_eqI [where e = "3" and n = "5658772931791029", THEN trans])
     (simp_all add: pow2_def)

lemma binary64_at_31: "binary64 (707346616473878625 / 70368744177664) = 5526145441202177 / 549755813888"
  by (rule binary64_eqI [where e = "13" and n = "5526145441202177", THEN trans])
     (simp_all add: pow2_def)

lemma binary64_at_32: "binary64 (4503599627370497 / 562949953421312) = 4503599627370497 / 562949953421312"
  by (rule binary64_eqI [where e = "3" and n = "4503599627370497", THEN trans])
     (simp_all add: pow2_def)

lemma binary64_at_33: "binary64 (4503599627370497 / 1125899906842624) = 4503599627370497 / 1125899906842624"
  by (rule binary64_eqI [where e = "2" and n = "4503599627370497", THEN trans])
     (simp_all add: pow2_def)

lemma binary64_at_34: "binary64 (288793326105133 / 140737488355328) = 288793326105133 / 140737488355328"
  by (rule binary64_eqI [where e = "1" and n = "4620693217682128", THEN trans])
     (simp_all add: pow2_def)

lemma binary64_at_35: "binary64 (6813946236211561 / 1125899906842624) = 6813946236211561 / 1125899906842624"
  by (rule binary64_eqI [where e = "2" and n = "6813946236211561", THEN trans])
     (simp_all add: pow2_def)

lemma binary64_at_36: "binary64 (851743279526445125 / 140737488355328) = 6654244371300353 / 1099511627776"
  by (rule binary64_eqI [where e = "12" and n = "6654244371300353", THEN trans])
     (simp_all add: pow2_def)

lemma binary64_at_37: "binary64 (5658772931791029 / 562949953421312) = 5658772931791029 / 562949953421312"
  by (rule binary64_eqI [where e = "3" and n = "5658772931791029", THEN trans])
     (simp_all add: pow2_def)

lemmas binary64_eval =
  binary64_zero binary64_at_1 binary64_at_2 binary64_at_3 binary64_at_4 binary64_at_5
  binary64_at_6 binary64_at_7 binary64_at_8 binary64_at_9 binary64_at_10
  binary64_at_11 binary64_at_12 binary64_at_13 binary64_at_14 binary64_at_15
  binary64_at_16 binary64_at_17 binary64_at_18 binary64_at_19 binary64_at_20
  binary64_at_21 binary64_at_22 binary64_at_23 binary64_at_24 binary64_at_25
  binary64_at_26 binary64_at_27 binary64_at_28 binary64_at_29 binary64_at_30
  binary64_at_31 binary64_at_32 binary64_at_33 binary64_at_34 binary64_at_35
  binary64_at_36 binary64_at_37

lemma millis_floors:
  "\<lfloor>8804889115230207 / 8796093022208 :: rat\<rfloor> = 1000"
  "\<lfloor>4512395720392703 / 2199023255552 :: rat\<rfloor> = 2051"
  "\<lfloor>6654244371300353 / 1099511627776 :: rat\<rfloor> = 6052"
  "\<lfloor>5526145441202177 / 549755813888 :: rat\<rfloor> = 10052"
  by (simp_all add: floor_eq_iff)

lemmas run_fl_eval = silero_step_fl_def pyannote_step_fl_def process_non_mute_segments_fl_def
  non_mute_step_fl_def chop_long_segment_duration_fl_def halve_loop_fl.simps
  sec_to_millis_fl_def sec_to_frame_fl_def span_entry_fl_def frame_pairs_def all_loud_def
  upt_conv_Cons Let_def

section \<open>The unit converters on floats\<close>

text \<open>
  C8, as the code has it. Each converter returns the product or the quotient rounded
  to a float, and \<open>frame_to_sec\<close> raises at the sampling rate zero. In exact arithmetic
  the converters are those of the section on \<open>utils.py\<close>, and for a sampling rate that
  is not zero the two frame converters undo each other, in both orders. On doubles a
  round trip returns the value it started from up to rounding: the relative error is at
  most \<open>2u + u\<^sup>2\<close> with \<open>u = 2\<^sup>-\<^sup>5\<^sup>3\<close>.
\<close>

theorem unit_converters_round_trip:
  "sec_to_millis_fl rnd s = rnd (s * 1000)
   \<and> sec_to_frame_fl rnd s sr = rnd (s * sr)
   \<and> frame_to_sec_fl rnd f 0 = Inl ZeroDivisionError
   \<and> (sr \<noteq> 0 \<longrightarrow> frame_to_sec_fl rnd f sr = Inr (rnd (f / sr)))
   \<and> sec_to_millis_fl (\<lambda>x. x) s = sec_to_millis s
   \<and> sec_to_frame_fl (\<lambda>x. x) s sr = sec_to_frame s sr
   \<and> frame_to_sec_fl (\<lambda>x. x) f sr = frame_to_sec f sr
   \<and> (sr \<noteq> 0 \<longrightarrow>
        frame_to_sec (sec_to_frame s sr) sr = Inr s
        \<and> map_sum id (\<lambda>sec. sec_to_frame sec sr) (frame_to_sec f sr) = Inr f)
   \<and> (sr \<noteq> 0 \<longrightarrow>
        frame_to_sec_fl binary64 (sec_to_frame_fl binary64 s sr) sr
          = Inr (binary64 (binary64 (s * sr) / sr))
        \<and> \<bar>binary64 (binary64 (s * sr) / sr) - s\<bar> \<le> \<bar>s\<bar> * (2 / 2 ^ 53 + 1 / 2 ^ 106)
        \<and> map_sum id (\<lambda>sec. sec_to_frame_fl binary64 sec sr) (frame_to_sec_fl binary64 f sr)
          = Inr (binary64 (binary64 (f / sr) * sr))
        \<and> \<bar>binary64 (binary64 (f / sr) * sr) - f\<bar> \<le> \<bar>f\<bar> * (2 / 2 ^ 53 + 1 / 2 ^ 106))"
proof (intro conjI impI)
  assume sr: "sr \<noteq> 0"
  show "\<bar>binary64 (binary64 (s * sr) / sr) - s\<bar> \<le> \<bar>s\<bar> * (2 / 2 ^ 53 + 1 / 2 ^ 106)"
    using times_then_divide [of binary64 "1 / 2 ^ 53" sr s, OF binary64_relative _ sr]
    by simp
  show "\<bar>binary64 (binary64 (f / sr) * sr) - f\<bar> \<le> \<bar>f\<bar> * (2 / 2 ^ 53 + 1 / 2 ^ 106)"
    using divide_then_times [of binary64 "1 / 2 ^ 53" sr f, OF binary64_relative _ sr]
    by simp
qed (simp_all add: sec_to_millis_fl_def sec_to_frame_fl_def frame_to_sec_fl_def
       sec_to_millis_def sec_to_frame_def frame_to_sec_def)

theorem unit_converters_round_trip_witness:
  "sec_to_millis_fl binary64 (3 / 2) = 1500
   \<and> sec_to_frame_fl binary64 (3 / 2) 16000 = 24000
   \<and> frame_to_sec_fl binary64 24000 16000 = Inr (3 / 2)
   \<and> frame_to_sec (sec_to_frame (3 / 2) 16000) 16000 = Inr (3 / 2)
   \<and> map_sum id (\<lambda>sec. sec_to_frame sec 16000) (frame_to_sec 24000 16000) = Inr 24000
   \<and> frame_to_sec_fl binary64 (sec_to_frame_fl binary64 (3 / 2) 16000) 16000 = Inr (3 / 2)
   \<and> map_sum id (\<lambda>sec. sec_to_frame_fl binary64 sec 16000) (frame_to_sec_fl binary64 24000 16000)
       = Inr 24000"
  using unit_converters_round_trip [of binary64 "3 / 2" 16000 24000]
  by (simp add: binary64_eval)

text \<open>
  C8 as stated fails on floats. Frame 1001 at 16000 frames a second is 0.0625625
  seconds, and these seconds are 1000.9999999999999 frames. The float 0.1 at the rate 3
  gives 0.30000000000000004, and that gives 0.10000000000000002.
\<close>

theorem unit_converters_round_trip_counterexample:
  "map_sum id (\<lambda>sec. sec_to_frame_fl binary64 sec 16000) (frame_to_sec_fl binary64 1001 16000)
     = Inr (8804889115230207 / 8796093022208)
   \<and> (8804889115230207 / 8796093022208 :: rat) < 1001
   \<and> binary64 (1 / 10) = 3602879701896397 / 36028797018963968
   \<and> frame_to_sec_fl binary64
       (sec_to_frame_fl binary64 (3602879701896397 / 36028797018963968) 3) 3
     = Inr (7205759403792795 / 72057594037927936)
   \<and> (3602879701896397 / 36028797018963968 :: rat) < 7205759403792795 / 72057594037927936"
  by (simp add: sec_to_frame_fl_def binary64_eval)


section \<open>Spans within the band, on floats\<close>

lemma span_entry_fl_key:
  "fst (span_entry_fl rnd full_audio_id c a b) =
     full_audio_id @ ''_'' @ format_04 c @ ''_'' @ str_int (py_int (rnd (a * 1000)))
       @ ''_to_'' @ str_int (py_int (rnd (b * 1000)))"
  by (simp add: span_entry_fl_def segment_key_def sec_to_millis_fl_def)

lemma span_entry_fl_duration:
  "\<bar>slice_duration (snd (span_entry_fl binary64 full_audio_id c a b)) - (b - a)\<bar>
     \<le> (\<bar>a\<bar> + \<bar>b\<bar>) / 2 ^ 53"
proof -
  have ea: "\<bar>binary64 (a * 1000) - a * 1000\<bar> \<le> \<bar>a\<bar> * 1000 / 2 ^ 53"
    using binary64_error [of "a * 1000"] by (simp add: abs_mult)
  have eb: "\<bar>binary64 (b * 1000) - b * 1000\<bar> \<le> \<bar>b\<bar> * 1000 / 2 ^ 53"
    using binary64_error [of "b * 1000"] by (simp add: abs_mult)
  have "slice_duration (snd (span_entry_fl binary64 full_audio_id c a b)) - (b - a) =
          ((binary64 (b * 1000) - b * 1000) - (binary64 (a * 1000) - a * 1000)) / 1000"
    by (simp add: span_entry_fl_def sec_to_millis_fl_def slice_duration_def slice_ms_def
          field_simps)
  also have "\<bar>\<dots>\<bar> \<le> (\<bar>binary64 (b * 1000) - b * 1000\<bar> + \<bar>binary64 (a * 1000) - a * 1000\<bar>) / 1000"
    by (simp add: abs_divide divide_right_mono)
  also have "\<dots> \<le> (\<bar>b\<bar> * 1000 / 2 ^ 53 + \<bar>a\<bar> * 1000 / 2 ^ 53) / 1000"
    using ea eb by (simp add: divide_right_mono)
  also have "\<dots> = (\<bar>a\<bar> + \<bar>b\<bar>) / 2 ^ 53" by (simp add: field_simps)
  finally show ?thesis .
qed

text \<open>
  C2, as the code has it. The duration that decides is the one the code computes: for
  a pyannote span \<open>end - start\<close>, for a Silero span \<open>(end_frame - start_frame) / 16000\<close>,
  for a sub-span the difference of the two sums \<open>start + frame / rate\<close>, each operation
  rounded. When it lies between the two limits, the step assigns exactly one entry and
  returns the counter plus one. The entry is the slice between the bounds of the whole
  span in milliseconds, as \<open>sec_to_millis\<close> computes them, and its key is built from
  the counter and from these bounds truncated to integers. In exact arithmetic the
  duration of the slice is the duration of the span; on doubles the two differ by at
  most \<open>(\<bar>a\<bar> + \<bar>b\<bar>) / 2\<^sup>5\<^sup>3\<close> for a span from \<open>a\<close> to \<open>b\<close>. No key of the dictionary
  carries a sequence number that is not below the counter, in any state that a run
  reaches (the last three parts): so the key is new, and the entry is appended. All of
  this holds for every way of rounding.
\<close>

theorem span_in_computed_band_accepted:
  "(lower_limit \<le> rnd (span_end vs - span_start vs) \<longrightarrow>
      rnd (span_end vs - span_start vs) \<le> upper_limit \<longrightarrow>
      pyannote_step_fl rnd effects_split sr lower_limit upper_limit full_audio_id vs c d =
        Some (Inr (c + 1),
          dict_set (fst (span_entry_fl rnd full_audio_id c (span_start vs) (span_end vs)))
            (snd (span_entry_fl rnd full_audio_id c (span_start vs) (span_end vs))) d)
      \<and> (keys_below full_audio_id c d \<longrightarrow>
            fst (span_entry_fl rnd full_audio_id c (span_start vs) (span_end vs)) \<notin> fst ` set d
          \<and> pyannote_step_fl rnd effects_split sr lower_limit upper_limit full_audio_id vs c d =
              Some (Inr (c + 1),
                d @ [span_entry_fl rnd full_audio_id c (span_start vs) (span_end vs)])))
   \<and> (lower_limit \<le> rnd (of_int (snd ts - fst ts) / 16000) \<longrightarrow>
      rnd (of_int (snd ts - fst ts) / 16000) \<le> upper_limit \<longrightarrow>
      silero_step_fl rnd effects_split lower_limit upper_limit full_audio_id ts c d =
        Some (Inr (c + 1),
          dict_set
            (fst (span_entry_fl rnd full_audio_id c (rnd (of_int (fst ts) / 16000))
                   (rnd (of_int (snd ts) / 16000))))
            (snd (span_entry_fl rnd full_audio_id c (rnd (of_int (fst ts) / 16000))
                   (rnd (of_int (snd ts) / 16000))))
            d)
      \<and> (keys_below full_audio_id c d \<longrightarrow>
            fst (span_entry_fl rnd full_audio_id c (rnd (of_int (fst ts) / 16000))
                  (rnd (of_int (snd ts) / 16000))) \<notin> fst ` set d
          \<and> silero_step_fl rnd effects_split lower_limit upper_limit full_audio_id ts c d =
              Some (Inr (c + 1),
                d @ [span_entry_fl rnd full_audio_id c (rnd (of_int (fst ts) / 16000))
                       (rnd (of_int (snd ts) / 16000))])))
   \<and> (sr \<noteq> 0 \<longrightarrow>
      lower_limit \<le> rnd (rnd (span_start vs + rnd (split_end / sr))
                        - rnd (span_start vs + rnd (split_start / sr))) \<longrightarrow>
      rnd (rnd (span_start vs + rnd (split_end / sr))
            - rnd (span_start vs + rnd (split_start / sr))) \<le> upper_limit \<longrightarrow>
      non_mute_step_fl rnd vs sr lower_limit upper_limit full_audio_id (split_start, split_end)
          c d =
        Some (Inr (c + 1),
          dict_set
            (fst (span_entry_fl rnd full_audio_id c (rnd (span_start vs + rnd (split_start / sr)))
                   (rnd (span_start vs + rnd (split_end / sr)))))
            (snd (span_entry_fl rnd full_audio_id c (rnd (span_start vs + rnd (split_start / sr)))
                   (rnd (span_start vs + rnd (split_end / sr))))) d)
      \<and> (keys_below full_audio_id c d \<longrightarrow>
            fst (span_entry_fl rnd full_audio_id c (rnd (span_start vs + rnd (split_start / sr)))
                  (rnd (span_start vs + rnd (split_end / sr)))) \<notin> fst ` set d
          \<and> non_mute_step_fl rnd vs sr lower_limit upper_limit full_audio_id
                (split_start, split_end) c d =
              Some (Inr (c + 1),
                d @ [span_entry_fl rnd full_audio_id c
                       (rnd (span_start vs + rnd (split_start / sr)))
                       (rnd (span_start vs + rnd (split_end / sr)))])))
   \<and> slice_start (snd (span_entry_fl rnd full_audio_id c a b)) = rnd (a * 1000)
   \<and> slice_end (snd (span_entry_fl rnd full_audio_id c a b)) = rnd (b * 1000)
   \<and> slice_duration (snd (span_entry_fl (\<lambda>x. x) full_audio_id c a b)) = b - a
   \<and> \<bar>slice_duration (snd (span_entry_fl binary64 full_audio_id c a b)) - (b - a)\<bar>
        \<le> (\<bar>a\<bar> + \<bar>b\<bar>) / 2 ^ 53
   \<and> fst (span_entry_fl rnd full_audio_id c a b) =
       full_audio_id @ ''_'' @ format_04 c @ ''_'' @ str_int (py_int (rnd (a * 1000)))
         @ ''_to_'' @ str_int (py_int (rnd (b * 1000)))
   \<and> (for_each (pyannote_step_fl rnd effects_split sr lower_limit upper_limit full_audio_id)
         spans 1 [] = Some (Inr c1, d1) \<longrightarrow> keys_below full_audio_id c1 d1)
   \<and> (for_each (silero_step_fl rnd effects_split lower_limit upper_limit full_audio_id)
         speech_timestamps 1 [] = Some (Inr c2, d2) \<longrightarrow> keys_below full_audio_id c2 d2)
   \<and> (keys_below full_audio_id c d \<longrightarrow>
        process_non_mute_segments_fl rnd splits vs sr lower_limit upper_limit full_audio_id c d
          = Some (Inr c3, d3) \<longrightarrow> keys_below full_audio_id c3 d3)"
proof (intro conjI impI)
  assume band: "lower_limit \<le> rnd (span_end vs - span_start vs)"
    "rnd (span_end vs - span_start vs) \<le> upper_limit"
  show p: "pyannote_step_fl rnd effects_split sr lower_limit upper_limit full_audio_id vs c d =
        Some (Inr (c + 1),
          dict_set (fst (span_entry_fl rnd full_audio_id c (span_start vs) (span_end vs)))
            (snd (span_entry_fl rnd full_audio_id c (span_start vs) (span_end vs))) d)"
    using band by (simp add: pyannote_step_fl_def Let_def span_entry_fl_def)
  assume k: "keys_below full_audio_id c d"
  show "fst (span_entry_fl rnd full_audio_id c (span_start vs) (span_end vs)) \<notin> fst ` set d"
    by (rule span_entry_fl_fresh(1) [OF k])
  show "pyannote_step_fl rnd effects_split sr lower_limit upper_limit full_audio_id vs c d =
          Some (Inr (c + 1),
            d @ [span_entry_fl rnd full_audio_id c (span_start vs) (span_end vs)])"
    unfolding p span_entry_fl_fresh(2) [OF k] by simp
next
  assume band: "lower_limit \<le> rnd (of_int (snd ts - fst ts) / 16000)"
    "rnd (of_int (snd ts - fst ts) / 16000) \<le> upper_limit"
  show p: "silero_step_fl rnd effects_split lower_limit upper_limit full_audio_id ts c d =
        Some (Inr (c + 1),
          dict_set
            (fst (span_entry_fl rnd full_audio_id c (rnd (of_int (fst ts) / 16000))
                   (rnd (of_int (snd ts) / 16000))))
            (snd (span_entry_fl rnd full_audio_id c (rnd (of_int (fst ts) / 16000))
                   (rnd (of_int (snd ts) / 16000))))
            d)"
    using band by (simp add: silero_step_fl_def Let_def span_entry_fl_def)
  assume k: "keys_below full_audio_id c d"
  show "fst (span_entry_fl rnd full_audio_id c (rnd (of_int (fst ts) / 16000))
          (rnd (of_int (snd ts) / 16000))) \<notin> fst ` set d"
    by (rule span_entry_fl_fresh(1) [OF k])
  show "silero_step_fl rnd effects_split lower_limit upper_limit full_audio_id ts c d =
          Some (Inr (c + 1),
            d @ [span_entry_fl rnd full_audio_id c (rnd (of_int (fst ts) / 16000))
                   (rnd (of_int (snd ts) / 16000))])"
    unfolding p span_entry_fl_fresh(2) [OF k] by simp
next
  assume sr: "sr \<noteq> 0"
    and band: "lower_limit \<le> rnd (rnd (span_start vs + rnd (split_end / sr))
                        - rnd (span_start vs + rnd (split_start / sr)))"
      "rnd (rnd (span_start vs + rnd (split_end / sr))
            - rnd (span_start vs + rnd (split_start / sr))) \<le> upper_limit"
  show p: "non_mute_step_fl rnd vs sr lower_limit upper_limit full_audio_id
          (split_start, split_end) c d =
        Some (Inr (c + 1),
          dict_set
            (fst (span_entry_fl rnd full_audio_id c (rnd (span_start vs + rnd (split_start / sr)))
                   (rnd (span_start vs + rnd (split_end / sr)))))
            (snd (span_entry_fl rnd full_audio_id c (rnd (span_start vs + rnd (split_start / sr)))
                   (rnd (span_start vs + rnd (split_end / sr))))) d)"
    using sr band by (simp add: non_mute_step_fl_def Let_def span_entry_fl_def)
  assume k: "keys_below full_audio_id c d"
  show "fst (span_entry_fl rnd full_audio_id c (rnd (span_start vs + rnd (split_start / sr)))
              (rnd (span_start vs + rnd (split_end / sr)))) \<notin> fst ` set d"
    by (rule span_entry_fl_fresh(1) [OF k])
  show "non_mute_step_fl rnd vs sr lower_limit upper_limit full_audio_id
            (split_start, split_end) c d =
          Some (Inr (c + 1),
            d @ [span_entry_fl rnd full_audio_id c
                   (rnd (span_start vs + rnd (split_start / sr)))
                   (rnd (span_start vs + rnd (split_end / sr)))])"
    unfolding p span_entry_fl_fresh(2) [OF k] by simp
next
  show "slice_start (snd (span_entry_fl rnd full_audio_id c a b)) = rnd (a * 1000)"
    by (simp add: span_entry_fl_def slice_ms_def sec_to_millis_fl_def)
  show "slice_end (snd (span_entry_fl rnd full_audio_id c a b)) = rnd (b * 1000)"
    by (simp add: span_entry_fl_def slice_ms_def sec_to_millis_fl_def)
  show "slice_duration (snd (span_entry_fl (\<lambda>x. x) full_audio_id c a b)) = b - a"
    by (simp add: span_entry_fl_def sec_to_millis_fl_def slice_duration_def slice_ms_def
          field_simps)
  show "\<bar>slice_duration (snd (span_entry_fl binary64 full_audio_id c a b)) - (b - a)\<bar>
        \<le> (\<bar>a\<bar> + \<bar>b\<bar>) / 2 ^ 53"
    by (rule span_entry_fl_duration)
  show "fst (span_entry_fl rnd full_audio_id c a b) =
       full_audio_id @ ''_'' @ format_04 c @ ''_'' @ str_int (py_int (rnd (a * 1000)))
         @ ''_to_'' @ str_int (py_int (rnd (b * 1000)))"
    by (rule span_entry_fl_key)
next
  assume run: "for_each
      (pyannote_step_fl rnd effects_split sr lower_limit upper_limit full_audio_id)
      spans 1 [] = Some (Inr c1, d1)"
  show "keys_below full_audio_id c1 d1"
    using writes_keys_below [OF pyannote_loop_fl_writes [of full_audio_id 1 "[]" rnd
          effects_split sr lower_limit upper_limit spans, unfolded run]] by simp
next
  assume run: "for_each (silero_step_fl rnd effects_split lower_limit upper_limit full_audio_id)
      speech_timestamps 1 [] = Some (Inr c2, d2)"
  show "keys_below full_audio_id c2 d2"
    using writes_keys_below [OF silero_loop_fl_writes [of full_audio_id 1 "[]" rnd
          effects_split lower_limit upper_limit speech_timestamps, unfolded run]] by simp
next
  assume k: "keys_below full_audio_id c d"
    and run: "process_non_mute_segments_fl rnd splits vs sr lower_limit upper_limit
          full_audio_id c d = Some (Inr c3, d3)"
  show "keys_below full_audio_id c3 d3"
    using writes_keys_below [OF process_fl_writes [of full_audio_id c d rnd splits vs sr
          lower_limit upper_limit, unfolded run] k] .
qed


lemma one_span_pyannote_fl:
  "for_each (pyannote_step_fl binary64 all_loud 16000 2 8 ''a'')
     [\<lparr>span_start = 0, span_end = 5\<rparr>] 1 [] =
   Some (Inr 2, [(''a_0001_0_to_5000'', \<lparr>slice_start = 0, slice_end = 5000\<rparr>)])"
  by (simp add: run_fl_eval key_eval binary64_eval millis_floors)

lemma one_span_silero_fl:
  "for_each (silero_step_fl binary64 all_loud 2 8 ''a'') [(16016, 96016)] 1 [] =
   Some (Inr 2, [(''a_0001_1000_to_6001'',
     \<lparr>slice_start = 8804889115230207 / 8796093022208, slice_end = 6001\<rparr>)])"
  by (simp add: run_fl_eval key_eval binary64_eval millis_floors)

lemma one_sub_span_fl:
  "process_non_mute_segments_fl binary64 [(0, 80000)] \<lparr>span_start = 10, span_end = 30\<rparr>
     16000 2 8 ''a'' 1 [] =
   Some (Inr 2, [(''a_0001_10000_to_15000'', \<lparr>slice_start = 10000, slice_end = 15000\<rparr>)])"
  by (simp add: run_fl_eval key_eval binary64_eval millis_floors)

theorem span_in_computed_band_accepted_witness:
  "pyannote_step_fl binary64 all_loud 16000 2 8 ''a'' \<lparr>span_start = 0, span_end = 5\<rparr> 1 [] =
     Some (Inr (1 + 1), [] @ [span_entry_fl binary64 ''a'' 1 0 5])
   \<and> silero_step_fl binary64 all_loud 2 8 ''a'' (16016, 96016) 1 [] =
     Some (Inr (1 + 1),
       [] @ [span_entry_fl binary64 ''a'' 1 (binary64 (of_int 16016 / 16000))
               (binary64 (of_int 96016 / 16000))])
   \<and> non_mute_step_fl binary64 \<lparr>span_start = 10, span_end = 30\<rparr> 16000 2 8 ''a'' (0, 80000)
       1 [] =
     Some (Inr (1 + 1),
       [] @ [span_entry_fl binary64 ''a'' 1 (binary64 (10 + binary64 (0 / 16000)))
               (binary64 (10 + binary64 (80000 / 16000)))])
   \<and> slice_start (snd (span_entry_fl binary64 ''a'' 1 0 5)) = binary64 (0 * 1000)
   \<and> slice_duration (snd (span_entry_fl (\<lambda>x. x) ''a'' 1 0 5)) = 5 - 0
   \<and> fst (span_entry_fl binary64 ''a'' 1 0 5) =
       ''a'' @ ''_'' @ format_04 1 @ ''_'' @ str_int (py_int (binary64 (0 * 1000)))
         @ ''_to_'' @ str_int (py_int (binary64 (5 * 1000)))
   \<and> keys_below ''a'' 2 [(''a_0001_0_to_5000'', \<lparr>slice_start = 0, slice_end = 5000\<rparr>)]
   \<and> keys_below ''a'' 2 [(''a_0001_1000_to_6001'',
        \<lparr>slice_start = 8804889115230207 / 8796093022208, slice_end = 6001\<rparr>)]
   \<and> keys_below ''a'' 2
        [(''a_0001_10000_to_15000'', \<lparr>slice_start = 10000, slice_end = 15000\<rparr>)]"
proof -
  note t = span_in_computed_band_accepted [where rnd = binary64 and lower_limit = 2
      and upper_limit = 8 and full_audio_id = "''a''" and c = 1 and d = "[]"
      and effects_split = all_loud and sr = 16000
      and vs = "\<lparr>span_start = 0, span_end = 5\<rparr>" and ts = "(16016, 96016)"
      and a = 0 and b = 5
      and spans = "[\<lparr>span_start = 0, span_end = 5\<rparr>]" and ?c1.0 = 2
      and ?d1.0 = "[(''a_0001_0_to_5000'', \<lparr>slice_start = 0, slice_end = 5000\<rparr>)]"
      and speech_timestamps = "[(16016, 96016)]" and ?c2.0 = 2
      and ?d2.0 = "[(''a_0001_1000_to_6001'',
        \<lparr>slice_start = 8804889115230207 / 8796093022208, slice_end = 6001\<rparr>)]"]
  note u = span_in_computed_band_accepted [where rnd = binary64 and lower_limit = 2
      and upper_limit = 8 and full_audio_id = "''a''" and c = 1 and d = "[]" and sr = 16000
      and vs = "\<lparr>span_start = 10, span_end = 30\<rparr>" and split_start = 0
      and split_end = 80000 and splits = "[(0, 80000)]" and ?c3.0 = 2
      and ?d3.0 = "[(''a_0001_10000_to_15000'', \<lparr>slice_start = 10000, slice_end = 15000\<rparr>)]"]
  have k: "keys_below ''a'' 1 []" by simp
  have p: "pyannote_step_fl binary64 all_loud 16000 2 8 ''a'' \<lparr>span_start = 0, span_end = 5\<rparr>
      1 [] = Some (Inr (1 + 1), [] @ [span_entry_fl binary64 ''a'' 1 0 5])"
    using t [THEN conjunct1] k by (simp add: binary64_eval)
  have s: "silero_step_fl binary64 all_loud 2 8 ''a'' (16016, 96016) 1 [] =
     Some (Inr (1 + 1),
       [] @ [span_entry_fl binary64 ''a'' 1 (binary64 (of_int 16016 / 16000))
               (binary64 (of_int 96016 / 16000))])"
    using t [THEN conjunct2, THEN conjunct1] k by (simp add: binary64_eval)
  have n: "non_mute_step_fl binary64 \<lparr>span_start = 10, span_end = 30\<rparr> 16000 2 8 ''a''
      (0, 80000) 1 [] =
     Some (Inr (1 + 1),
       [] @ [span_entry_fl binary64 ''a'' 1 (binary64 (10 + binary64 (0 / 16000)))
               (binary64 (10 + binary64 (80000 / 16000)))])"
    using u [THEN conjunct2, THEN conjunct2, THEN conjunct1] k by (simp add: binary64_eval)
  note r = t [THEN conjunct2, THEN conjunct2, THEN conjunct2]
  have e1: "slice_start (snd (span_entry_fl binary64 ''a'' 1 0 5)) = binary64 (0 * 1000)"
    by (rule r [THEN conjunct1])
  have e2: "slice_duration (snd (span_entry_fl (\<lambda>x. x) ''a'' 1 0 5)) = 5 - 0"
    by (rule r [THEN conjunct2, THEN conjunct2, THEN conjunct1])
  note r' = r [THEN conjunct2, THEN conjunct2, THEN conjunct2, THEN conjunct2]
  have e3: "fst (span_entry_fl binary64 ''a'' 1 0 5) =
       ''a'' @ ''_'' @ format_04 1 @ ''_'' @ str_int (py_int (binary64 (0 * 1000)))
         @ ''_to_'' @ str_int (py_int (binary64 (5 * 1000)))"
    by (rule r' [THEN conjunct1])
  have k1: "keys_below ''a'' 2 [(''a_0001_0_to_5000'', \<lparr>slice_start = 0, slice_end = 5000\<rparr>)]"
    by (rule r' [THEN conjunct2, THEN conjunct1, THEN mp, OF one_span_pyannote_fl])
  have k2: "keys_below ''a'' 2 [(''a_0001_1000_to_6001'',
        \<lparr>slice_start = 8804889115230207 / 8796093022208, slice_end = 6001\<rparr>)]"
    by (rule r' [THEN conjunct2, THEN conjunct2, THEN conjunct1, THEN mp,
          OF one_span_silero_fl])
  have k3: "keys_below ''a'' 2
        [(''a_0001_10000_to_15000'', \<lparr>slice_start = 10000, slice_end = 15000\<rparr>)]"
    by (rule u [THEN conjunct2, THEN conjunct2, THEN conjunct2, THEN conjunct2,
          THEN conjunct2, THEN conjunct2, THEN conjunct2, THEN conjunct2, THEN conjunct2,
          THEN conjunct2, THEN mp, OF k, THEN mp, OF one_sub_span_fl])
  show ?thesis by (intro conjI p s n e1 e2 e3 k1 k2 k3)
qed

text \<open>
  C2 as stated fails for sub-spans, whose duration the code computes as the difference
  of two rounded sums. A Silero span that starts at frame 32 has two non-silent runs:
  the frames 0 to 32000, which last 2 seconds, and the frames 32800 to 160800, which
  last 8 seconds. Both durations are within the limits 2 and 8, and in exact arithmetic
  each run is accepted as one segment. On doubles the first duration comes out as
  1.9999999999999998 and the run is dropped, and the second comes out as
  8.000000000000002 and the run is chopped in two.
\<close>

theorem span_in_computed_band_accepted_counterexample:
  "(32000 - 0) / 16000 = (2 :: rat) \<and> (160800 - 32800) / 16000 = (8 :: rat)
   \<and> process_non_mute_segments [(0, 32000), (32800, 160800)]
       \<lparr>span_start = 32 / 16000, span_end = 160832 / 16000\<rparr> 16000 2 8 ''a'' 1 [] =
     Some (Inr 3, [(''a_0001_2_to_2002'', \<lparr>slice_start = 2, slice_end = 2002\<rparr>),
                   (''a_0002_2052_to_10052'', \<lparr>slice_start = 2052, slice_end = 10052\<rparr>)])
   \<and> process_non_mute_segments_fl binary64 [(0, 32000), (32800, 160800)]
       \<lparr>span_start = binary64 (32 / 16000), span_end = binary64 (160832 / 16000)\<rparr>
       16000 2 8 ''a'' 1 [] =
     Some (Inr 3,
       [(''a_0001_2051_to_6052'',
           \<lparr>slice_start = 4512395720392703 / 2199023255552,
              slice_end = 6654244371300353 / 1099511627776\<rparr>),
        (''a_0002_6052_to_10052'',
           \<lparr>slice_start = 6654244371300353 / 1099511627776,
              slice_end = 5526145441202177 / 549755813888\<rparr>)])"
  by (simp add: run_eval run_fl_eval key_eval binary64_eval millis_floors)

end
